theory Spec2Isabelle
  imports Main
begin

section \<open>Result codes, agent states and agent events\<close>

text \<open>
  Modelled from the spec: the class InstErrorCode of instrument_constants is not among the
  sources. The result codes are those of the spec's error taxonomy (section 7), together with
  GET_OBSERVATORY_ERR, which instrument_agent.py names; \<open>is_ok\<close> holds of OK alone and
  \<open>is_error\<close> of every other code.
\<close>

datatype inst_error_code =
    OK
  | LOCKED_RESOURCE
  | RESOURCE_NOT_LOCKED
  | INVALID_TRANSACTION_ID
  | TIMEOUT
  | INCORRECT_STATE
  | AGENT_INIT_FAILED
  | AGENT_DEINIT_FAILED
  | DRIVER_CONNECT_FAILED
  | DRIVER_DISCONNECT_FAILED
  | INVALID_PARAMETER
  | INVALID_PARAM_VALUE
  | INVALID_CAPABILITY
  | INVALID_STATUS
  | UNKNOWN_COMMAND
  | REQUIRED_PARAMETER
  | NOT_IMPLEMENTED
  | UNKNOWN_ERROR
  | GET_OBSERVATORY_ERR

definition is_ok :: "inst_error_code \<Rightarrow> bool" where
  "is_ok c = (c = OK)"

definition is_error :: "inst_error_code \<Rightarrow> bool" where
  "is_error c = (c \<noteq> OK)"

datatype agent_state =
    POWERED_DOWN
  | UNINITIALIZED
  | INACTIVE
  | IDLE
  | STOPPED
  | OBSERVATORY_MODE
  | DIRECT_ACCESS_MODE

datatype agent_event =
    ENTER
  | EXIT
  | INITIALIZE
  | RESET
  | GO_ACTIVE
  | GO_INACTIVE
  | RUN
  | CLEAR
  | PAUSE
  | RESUME
  | GO_OBSERVATORY_MODE
  | GO_DIRECT_ACCESS_MODE

section \<open>Exceptions and the outcome of calls to collaborators\<close>

text \<open>
  The exceptions that the modelled code can raise: a failed \<open>assert\<close>, a second
  \<open>callback\<close> on a Deferred (Twisted's AlreadyCalledError), \<open>cancel\<close> on a delayed
  call that is no longer pending (Twisted raises AlreadyCalled or AlreadyCancelled; the model
  does not tell the two apart), an index out of range, and an exception raised by a
  collaborator (the driver client or the state machine engine).
\<close>

datatype error =
    AssertionError
  | AlreadyCalledError
  | AlreadyCalled
  | IndexError
  | CollaboratorError

text \<open>
  A call to a collaborator either raises or returns. The environment decides which; the
  model takes the outcome as an argument of the function that makes the call.
\<close>

datatype 'a outcome = Raised | Returned 'a

section \<open>The agent and the process environment it mutates\<close>

text \<open>
  A Twisted delayed call runs one of the two closures that instrument_agent.py hands to
  \<open>reactor.callLater\<close>: \<open>transaction_expired\<close> (defined in \<open>_start_transaction\<close>) or
  \<open>acquisition_timeout\<close> (defined in \<open>_request_transaction\<close>, closing over the Deferred
  \<open>d\<close> of the request).
\<close>

datatype callback_fn = TransactionExpired | AcquisitionTimeout nat

text \<open>
  The fields of InstrumentAgent set by \<open>plc_init\<close> that the modelled methods read or
  write (the leading underscore of the Python names is dropped), followed by the part of
  the process environment they act on:
  \<^item> \<open>current_state\<close> is what \<open>self._fsm.get_current_state()\<close> returns;
  \<^item> \<open>delayed_calls\<close> maps the handle of every pending delayed call of the reactor to its
    delay and closure; a call that fired or was cancelled is no longer in the map;
    \<open>next_call\<close> is the next fresh handle;
  \<^item> \<open>deferred_results\<close> maps a Deferred to the value it was fired with; Deferreds are
    numbered in the order of their construction and \<open>next_deferred\<close> is the next one;
  \<^item> \<open>entropy\<close> is the stream of random numbers \<open>uuid4\<close> draws from, \<open>entropy_pos\<close>
    the number of draws so far.
  An entry of \<open>pending_transactions\<close> is the tuple
  \<open>(d, acq_timeout_call, exp_timeout, requester)\<close>.
\<close>

record agent =
  driver_pid :: "nat option"
  condemned_drivers :: "nat list"
  driver_client :: "nat option"
  transaction_id :: "string option"
  transaction_timed_out :: bool
  transaction_timeout_call :: "nat option"
  pending_transactions :: "(nat \<times> nat \<times> int \<times> string) list"
  max_acq_timeout :: int
  min_exp_timeout :: int
  default_exp_timeout :: int
  max_exp_timeout :: int
  in_protected_function :: bool
  current_state :: agent_state
  delayed_calls :: "nat \<rightharpoonup> int \<times> callback_fn"
  next_call :: nat
  deferred_results :: "nat \<rightharpoonup> inst_error_code \<times> string option"
  next_deferred :: nat
  entropy :: "nat \<Rightarrow> nat"
  entropy_pos :: nat

text \<open>
  The agent as \<open>plc_init\<close> leaves it, in an environment with no pending delayed call, no
  Deferred and the random source \<open>rnd\<close>.
\<close>

definition plc_init :: "(nat \<Rightarrow> nat) \<Rightarrow> agent" where
  "plc_init rnd =
     \<lparr> driver_pid = None,
       condemned_drivers = [],
       driver_client = None,
       transaction_id = None,
       transaction_timed_out = False,
       transaction_timeout_call = None,
       pending_transactions = [],
       max_acq_timeout = 60,
       min_exp_timeout = 1,
       default_exp_timeout = 300,
       max_exp_timeout = 1800,
       in_protected_function = False,
       current_state = UNINITIALIZED,
       delayed_calls = Map.empty,
       next_call = 0,
       deferred_results = Map.empty,
       next_deferred = 0,
       entropy = rnd,
       entropy_pos = 0 \<rparr>"

text \<open>
  A method returns a value or raises, and in both cases leaves the agent as it has mutated
  it so far: Python does not roll back on an exception.
\<close>

type_synonym 'a result = "(error + 'a) \<times> agent"

definition return_val :: "'a \<Rightarrow> agent \<Rightarrow> 'a result" where
  "return_val x s = (Inr x, s)"

text \<open>Sequencing of two statements: the second runs only if the first did not raise.\<close>

definition and_then :: "(agent \<Rightarrow> 'a result) \<Rightarrow> ('a \<Rightarrow> agent \<Rightarrow> 'b result) \<Rightarrow> agent \<Rightarrow> 'b result" where
  "and_then m f s = (case m s of (Inl e, s') \<Rightarrow> (Inl e, s') | (Inr x, s') \<Rightarrow> f x s')"

section \<open>Driver lifecycle: condemning the driver\<close>

definition condemn_driver :: "agent \<Rightarrow> agent" where
  "condemn_driver s =
     (case driver_pid s of
        Some pid \<Rightarrow>
          s\<lparr> condemned_drivers := condemned_drivers s @ [pid],
             driver_pid := None,
             driver_client := None \<rparr>
      | None \<Rightarrow> s)"

section \<open>State handlers\<close>

text \<open>
  A call through the driver client inside a \<open>try\<close>, such as
  \<open>reply = yield self._driver_client.disconnect(); success = reply['success']\<close>: the
  environment supplies the outcome \<open>env\<close> of the remote call and of reading the reply; with
  no client object (\<open>_driver_client\<close> is None) the attribute access raises whatever the
  environment says.
\<close>

definition driver_call :: "'a outcome \<Rightarrow> agent \<Rightarrow> 'a outcome" where
  "driver_call env s = (if driver_client s = None then Raised else env)"

text \<open>
  The branch shared by the GO_INACTIVE event of the four handlers below: disconnect, and
  move to INACTIVE if the driver reports success.
\<close>

definition go_inactive :: "inst_error_code outcome \<Rightarrow> agent \<Rightarrow> (inst_error_code \<times> agent_state option \<times> string option) \<times> agent" where
  "go_inactive env s =
     (case driver_call env s of
        Raised \<Rightarrow> ((DRIVER_CONNECT_FAILED, None, None), s)
      | Returned success \<Rightarrow>
          if is_ok success then ((success, Some INACTIVE, None), s)
          else ((success, None, None), s))"

text \<open>
  Each handler takes the event and returns \<open>(success, next_state, result)\<close> with the agent.
  The argument \<open>env\<close> is the outcome of the one driver call the handler may make. Publishing
  the state on ENTER has no effect on the modelled fields.
\<close>

definition state_handler_stopped :: "agent_event \<Rightarrow> inst_error_code outcome \<Rightarrow> agent \<Rightarrow> (inst_error_code \<times> agent_state option \<times> string option) \<times> agent" where
  "state_handler_stopped event env s =
     (if event = ENTER then ((OK, None, None), s)
      else if event = EXIT then ((OK, None, None), s)
      else if event = CLEAR then ((OK, Some IDLE, None), s)
      else if event = RESUME then ((OK, Some OBSERVATORY_MODE, None), s)
      else if event = GO_INACTIVE then go_inactive env s
      else if event = RESET then
        (case driver_call env s of
           Raised \<Rightarrow> ((DRIVER_CONNECT_FAILED, None, None), s)
         | Returned success \<Rightarrow>
             if is_ok success then
               (let s' = condemn_driver s in
                if driver_pid s' = None then ((success, Some UNINITIALIZED, None), s')
                else ((AGENT_DEINIT_FAILED, Some INACTIVE, None), s'))
             else ((success, None, None), s))
      else ((INCORRECT_STATE, None, None), s))"

definition state_handler_idle :: "agent_event \<Rightarrow> inst_error_code outcome \<Rightarrow> agent \<Rightarrow> (inst_error_code \<times> agent_state option \<times> string option) \<times> agent" where
  "state_handler_idle event env s =
     (if event = ENTER then ((OK, None, None), s)
      else if event = EXIT then ((OK, None, None), s)
      else if event = GO_INACTIVE then go_inactive env s
      else if event = RESET then
        (case driver_call env s of
           Raised \<Rightarrow> ((DRIVER_CONNECT_FAILED, None, None), s)
         | Returned success \<Rightarrow>
             if is_ok success then
               (let s' = condemn_driver s in
                if driver_pid s' = None then ((success, Some UNINITIALIZED, None), s')
                else ((AGENT_DEINIT_FAILED, Some INACTIVE, None), s'))
             else ((success, None, None), s))
      else if event = RUN then ((OK, Some OBSERVATORY_MODE, None), s)
      else ((INCORRECT_STATE, None, None), s))"

definition state_handler_observatory_mode :: "agent_event \<Rightarrow> inst_error_code outcome \<Rightarrow> agent \<Rightarrow> (inst_error_code \<times> agent_state option \<times> string option) \<times> agent" where
  "state_handler_observatory_mode event env s =
     (if event = ENTER then ((OK, None, None), s)
      else if event = EXIT then ((OK, None, None), s)
      else if event = CLEAR then ((OK, Some IDLE, None), s)
      else if event = PAUSE then ((OK, Some STOPPED, None), s)
      else if event = GO_DIRECT_ACCESS_MODE then ((OK, Some DIRECT_ACCESS_MODE, None), s)
      else if event = GO_INACTIVE then go_inactive env s
      else if event = RESET then
        (case driver_call env s of
           Raised \<Rightarrow> ((DRIVER_DISCONNECT_FAILED, None, None), s)
         | Returned success \<Rightarrow>
             if is_ok success then
               (let s' = condemn_driver s in
                if driver_pid s' = None then ((success, Some UNINITIALIZED, None), s')
                else ((AGENT_DEINIT_FAILED, Some INACTIVE, None), s'))
             else ((success, None, None), s))
      else ((INCORRECT_STATE, None, None), s))"

text \<open>
  On ENTER the direct access handler returns the \<open>success\<close> and \<open>result\<close> entries of the
  reply of \<open>_LaunchSoCat\<close>, here the argument \<open>socat\<close>: they are components of the code
  NOT_IMPLEMENTED, whose representation is in instrument_constants.
\<close>

definition state_handler_direct_access_mode :: "agent_event \<Rightarrow> inst_error_code outcome \<Rightarrow> inst_error_code \<times> string option \<Rightarrow> agent \<Rightarrow> (inst_error_code \<times> agent_state option \<times> string option) \<times> agent" where
  "state_handler_direct_access_mode event env socat s =
     (if event = ENTER then ((fst socat, None, snd socat), s)
      else if event = EXIT then ((OK, None, None), s)
      else if event = GO_OBSERVATORY_MODE then ((OK, Some OBSERVATORY_MODE, None), s)
      else if event = GO_INACTIVE then go_inactive env s
      else if event = RESET then
        (case driver_call env s of
           Raised \<Rightarrow> ((DRIVER_CONNECT_FAILED, None, None), s)
         | Returned success \<Rightarrow>
             if is_ok success then
               (let s' = condemn_driver s in
                if driver_pid s' = None then ((success, Some UNINITIALIZED, None), s')
                else ((AGENT_DEINIT_FAILED, Some INACTIVE, None), s'))
             else ((success, None, None), s))
      else ((INCORRECT_STATE, None, None), s))"

section \<open>The reactor, Deferreds and UUIDs\<close>

text \<open>
  \<open>reactor.callLater(delay, f)\<close>: Twisted asserts that the delay is not negative, registers
  the call and returns its handle.
\<close>

definition callLater :: "int \<Rightarrow> callback_fn \<Rightarrow> agent \<Rightarrow> nat result" where
  "callLater delay f s =
     (if delay < 0 then (Inl AssertionError, s)
      else (Inr (next_call s),
            s\<lparr> delayed_calls := (delayed_calls s)(next_call s \<mapsto> (delay, f)),
               next_call := Suc (next_call s) \<rparr>))"

text \<open>\<open>call.cancel()\<close>: raises when the call has fired or was cancelled before.\<close>

definition cancel :: "nat \<Rightarrow> agent \<Rightarrow> unit result" where
  "cancel call s =
     (case delayed_calls s call of
        None \<Rightarrow> (Inl AlreadyCalled, s)
      | Some _ \<Rightarrow> (Inr (), s\<lparr> delayed_calls := (delayed_calls s)(call := None) \<rparr>))"

text \<open>\<open>defer.Deferred()\<close>: a new Deferred, not yet fired.\<close>

definition Deferred :: "agent \<Rightarrow> nat \<times> agent" where
  "Deferred s = (next_deferred s, s\<lparr> next_deferred := Suc (next_deferred s) \<rparr>)"

text \<open>\<open>d.callback(v)\<close>: fires the Deferred; a second firing raises AlreadyCalledError.\<close>

definition callback :: "nat \<Rightarrow> inst_error_code \<times> string option \<Rightarrow> agent \<Rightarrow> unit result" where
  "callback d v s =
     (case deferred_results s d of
        Some _ \<Rightarrow> (Inl AlreadyCalledError, s)
      | None \<Rightarrow> (Inr (), s\<lparr> deferred_results := (deferred_results s)(d \<mapsto> v) \<rparr>))"

text \<open>
  \<open>str(uuid4())\<close>: 128 bits written as 32 lower-case hexadecimal digits in five groups
  of 8, 4, 4, 4 and 12 digits separated by hyphens. The bits come from the random source;
  the six that \<open>uuid4\<close> fixes to mark version and variant are not singled out, since the
  agent only compares tokens and counts their characters.
\<close>

definition hex_digit :: "nat \<Rightarrow> char" where
  "hex_digit n = ''0123456789abcdef'' ! (n mod 16)"

fun hex :: "nat \<Rightarrow> nat \<Rightarrow> string" where
  "hex 0 n = []"
| "hex (Suc k) n = hex k (n div 16) @ [hex_digit n]"

definition str_uuid :: "nat \<Rightarrow> string" where
  "str_uuid n =
     hex 8 (n div 2 ^ 96) @ ''-'' @ hex 4 (n div 2 ^ 80) @ ''-'' @ hex 4 (n div 2 ^ 64) @ ''-'' @
     hex 4 (n div 2 ^ 48) @ ''-'' @ hex 12 n"

definition str_uuid4 :: "agent \<Rightarrow> string \<times> agent" where
  "str_uuid4 s =
     (str_uuid (entropy s (entropy_pos s) mod 2 ^ 128),
      s\<lparr> entropy_pos := Suc (entropy_pos s) \<rparr>)"

section \<open>Transaction management\<close>

text \<open>
  The range check on the expiration timeout that \<open>_start_transaction\<close> and
  \<open>_request_transaction\<close> both open with, and the one on the acquisition timeout of
  \<open>_request_transaction\<close>.
\<close>

definition clamp_exp_timeout :: "int option \<Rightarrow> agent \<Rightarrow> int" where
  "clamp_exp_timeout exp_timeout s =
     (case exp_timeout of
        None \<Rightarrow> default_exp_timeout s
      | Some e \<Rightarrow>
          if e > max_exp_timeout s then max_exp_timeout s
          else if e < min_exp_timeout s then min_exp_timeout s
          else e)"

definition clamp_acq_timeout :: "int option \<Rightarrow> agent \<Rightarrow> int" where
  "clamp_acq_timeout acq_timeout s =
     (case acq_timeout of
        None \<Rightarrow> 0
      | Some a \<Rightarrow> if a > max_acq_timeout s then max_acq_timeout s else a)"

text \<open>The assertion \<open>t == None or (isinstance(t, int) and t >= 0)\<close>.\<close>

definition none_or_nonneg :: "int option \<Rightarrow> bool" where
  "none_or_nonneg t = (case t of None \<Rightarrow> True | Some n \<Rightarrow> 0 \<le> n)"

definition start_transaction :: "int option \<Rightarrow> agent \<Rightarrow> (inst_error_code \<times> string option) result" where
  "start_transaction exp_timeout s =
     (if \<not> none_or_nonneg exp_timeout then (Inl AssertionError, s)
      else
        let exp_timeout' = clamp_exp_timeout exp_timeout s in
        if transaction_id s = None then
          (let (u, s1) = str_uuid4 s;
               s2 = s1\<lparr> transaction_id := Some u \<rparr>
           in and_then (callLater exp_timeout' TransactionExpired)
                (\<lambda>call s3. (Inr (OK, transaction_id s3),
                             s3\<lparr> transaction_timeout_call := Some call \<rparr>)) s2)
        else (Inr (LOCKED_RESOURCE, None), s))"

text \<open>
  \<open>_end_transaction(tid)\<close>; the argument is None where the caller passes a
  \<open>self.transaction_id\<close> that is None, which fails the \<open>isinstance(tid, str)\<close> assertion.
  The method returns the dict \<open>{'success': code}\<close>, here the code.
\<close>

definition end_transaction :: "string option \<Rightarrow> agent \<Rightarrow> inst_error_code result" where
  "end_transaction tid s =
     (if tid = None then (Inl AssertionError, s)
      else if tid = transaction_id s then
        (let s1 = s\<lparr> transaction_id := None, transaction_timed_out := False \<rparr> in
         and_then
           (\<lambda>s1. case transaction_timeout_call s1 of
                    None \<Rightarrow> (Inr (), s1)
                  | Some call \<Rightarrow>
                      and_then (cancel call)
                        (\<lambda>_ s2. (Inr (), s2\<lparr> transaction_timeout_call := None \<rparr>)) s1)
           (\<lambda>_ s2.
              case pending_transactions s2 of
                [] \<Rightarrow> (Inr OK, s2)
              | (d, call, exp_timeout, requester) # rest \<Rightarrow>
                  and_then (cancel call)
                    (\<lambda>_. and_then (start_transaction (Some exp_timeout))
                      (\<lambda>(success, tid'). and_then (callback d (success, tid'))
                        (\<lambda>_. return_val OK)))
                    (s2\<lparr> pending_transactions := rest \<rparr>))
           s1)
      else if transaction_id s = None then (Inr RESOURCE_NOT_LOCKED, s)
      else (Inr LOCKED_RESOURCE, s))"

text \<open>
  The closure \<open>transaction_expired\<close> that \<open>_start_transaction\<close> schedules.
\<close>

definition transaction_expired :: "agent \<Rightarrow> unit result" where
  "transaction_expired s =
     (let s1 = s\<lparr> transaction_timeout_call := None \<rparr> in
      if in_protected_function s1 then (Inr (), s1\<lparr> transaction_timed_out := True \<rparr>)
      else and_then (end_transaction (transaction_id s1)) (\<lambda>_. return_val ()) s1)"

text \<open>
  The closure \<open>acquisition_timeout\<close> that \<open>_request_transaction\<close> schedules for the
  Deferred \<open>d\<close>. Its \<open>for item in self._pending_transactions\<close> walks the list by position
  while the body removes from it: \<open>i\<close> is the position of the iterator, and
  \<open>list.remove\<close> deletes the first entry equal to the item.
\<close>

function acquisition_timeout_loop :: "nat \<Rightarrow> nat \<Rightarrow> agent \<Rightarrow> unit result" where
  "acquisition_timeout_loop d i s =
     (if i < length (pending_transactions s) then
        (let item = pending_transactions s ! i in
         if fst item = d then
           (case callback d (TIMEOUT, None)
                   (s\<lparr> pending_transactions := remove1 item (pending_transactions s) \<rparr>) of
              (Inl e, s') \<Rightarrow> (Inl e, s')
            | (Inr _, s') \<Rightarrow> acquisition_timeout_loop d (Suc i) s')
         else acquisition_timeout_loop d (Suc i) s)
      else (Inr (), s))"
  by pat_completeness auto
termination
  apply (relation "measure (\<lambda>(d, i, s). length (pending_transactions s) - i)")
    apply simp
   apply (auto simp: callback_def length_remove1 split: option.splits)
  done

declare acquisition_timeout_loop.simps [simp del]

definition acquisition_timeout :: "nat \<Rightarrow> agent \<Rightarrow> unit result" where
  "acquisition_timeout d s = acquisition_timeout_loop d 0 s"

definition request_transaction :: "int option \<Rightarrow> int option \<Rightarrow> string \<Rightarrow> agent \<Rightarrow> nat result" where
  "request_transaction acq_timeout exp_timeout requester s =
     (if \<not> none_or_nonneg acq_timeout then (Inl AssertionError, s)
      else if \<not> none_or_nonneg exp_timeout then (Inl AssertionError, s)
      else
        let exp_timeout' = clamp_exp_timeout exp_timeout s;
            acq_timeout' = clamp_acq_timeout acq_timeout s;
            (d, s1) = Deferred s
        in
        if transaction_id s1 = None then
          and_then (start_transaction (Some exp_timeout'))
            (\<lambda>(success, tid). and_then (callback d (success, tid)) (\<lambda>_. return_val d)) s1
        else if acq_timeout' = 0 then
          and_then (callback d (LOCKED_RESOURCE, None)) (\<lambda>_. return_val d) s1
        else
          and_then (callLater acq_timeout' (AcquisitionTimeout d))
            (\<lambda>acq_timeout_call s2.
               (Inr d, s2\<lparr> pending_transactions :=
                              pending_transactions s2 @ [(d, acq_timeout_call, exp_timeout', requester)] \<rparr>))
            s1)"

text \<open>
  The reactor runs a pending delayed call: the call leaves the pending set, then its closure
  runs. A handle that is not pending runs nothing.
\<close>

definition fire :: "nat \<Rightarrow> agent \<Rightarrow> unit result" where
  "fire call s =
     (case delayed_calls s call of
        None \<Rightarrow> (Inr (), s)
      | Some (delay, f) \<Rightarrow>
          (let s1 = s\<lparr> delayed_calls := (delayed_calls s)(call := None) \<rparr> in
           case f of
             TransactionExpired \<Rightarrow> transaction_expired s1
           | AcquisitionTimeout d \<Rightarrow> acquisition_timeout d s1))"

text \<open>
  \<open>_verify_transaction(tid, optype)\<close>. Publishing the error has no effect on the modelled
  fields.
\<close>

definition verify_transaction :: "string \<Rightarrow> string \<Rightarrow> agent \<Rightarrow> inst_error_code result" where
  "verify_transaction tid optype s =
     (if tid \<noteq> ''create'' \<and> tid \<noteq> ''none'' \<and> length tid \<noteq> 36 then
        (Inr INVALID_TRANSACTION_ID, s)
      else if tid = ''create'' then
        and_then (start_transaction (Some (default_exp_timeout s)))
          (\<lambda>(success, tid'). return_val (if is_ok success then OK else LOCKED_RESOURCE)) s
      else if tid = ''none'' \<and> transaction_id s = None \<and> optype = ''get'' then (Inr OK, s)
      else if Some tid = transaction_id s then (Inr OK, s)
      else (Inr LOCKED_RESOURCE, s))"

section \<open>Protected operations\<close>

text \<open>
  The reply dict \<open>{'success': ..., 'result': ..., 'transaction_id': ...}\<close> that a protected
  operation builds and hands to \<open>reply_ok\<close>.
\<close>

record reply =
  reply_success :: "inst_error_code option"
  reply_result :: "string option"
  reply_transaction_id :: "string option"

definition empty_reply :: reply where
  "empty_reply = \<lparr> reply_success = None, reply_result = None, reply_transaction_id = None \<rparr>"

text \<open>
  A protected operation is a generator. As a \<open>reply result\<close>, \<open>Inr r\<close> says that the
  operation sent the reply \<open>r\<close> with \<open>reply_ok\<close> and returned, \<open>Inl e\<close> that the exception
  \<open>e\<close> left the operation, which then sent no reply. Where the operation body waits for the
  driver, the operation is split in two: the part up to the call either has replied or is
  waiting with the reply built so far, and the second part resumes with the outcome of the
  call. Publishing to the log publisher and \<open>reply_ok\<close> have no effect on the modelled
  fields and are taken to return normally.
\<close>

datatype progress = Replied reply | Awaiting reply

text \<open>
  The last two statements of the \<open>finally\<close> clause of every protected operation:
  \<open>if (tid == 'create') or (self._transaction_timed_out == True):
  self._end_transaction(self.transaction_id)\<close> and
  \<open>self._in_protected_function = False\<close>.
\<close>

definition transaction_cleanup :: "string \<Rightarrow> agent \<Rightarrow> unit result" where
  "transaction_cleanup tid s =
     and_then
       (\<lambda>s. if tid = ''create'' \<or> transaction_timed_out s = True
            then and_then (end_transaction (transaction_id s)) (\<lambda>_. return_val ()) s
            else (Inr (), s))
       (\<lambda>_ s'. (Inr (), s'\<lparr> in_protected_function := False \<rparr>))
       s"

text \<open>
  \<open>try: body  except: success = UNKNOWN_ERROR; raise  else: set the reply  finally: clean up\<close>
  followed by \<open>reply_ok\<close>, as ten of the twelve protected operations have it: the \<open>finally\<close>
  clause runs on both paths; after an exception of the body the exception is raised again when
  the clause is through, unless the clause itself raised.
\<close>

definition finish_reraising :: "string \<Rightarrow> (reply \<Rightarrow> 'a \<Rightarrow> reply) \<Rightarrow> reply \<Rightarrow> 'a result \<Rightarrow> reply result" where
  "finish_reraising tid set_reply rep body =
     (case body of
        (Inl e, s) \<Rightarrow>
          (case transaction_cleanup tid s of
             (Inl e', s') \<Rightarrow> (Inl e', s')
           | (Inr _, s') \<Rightarrow> (Inl e, s'))
      | (Inr x, s) \<Rightarrow>
          and_then (transaction_cleanup tid) (\<lambda>_. return_val (set_reply rep x)) s)"

text \<open>
  The same without the \<open>raise\<close>, as \<open>op_get_device_metadata\<close> and \<open>op_get_device_status\<close>
  have it: after an exception of the body only the local variable \<open>success\<close> is set, and
  the reply goes out as it was before the body.
\<close>

definition finish_swallowing :: "string \<Rightarrow> (reply \<Rightarrow> 'a \<Rightarrow> reply) \<Rightarrow> reply \<Rightarrow> 'a result \<Rightarrow> reply result" where
  "finish_swallowing tid set_reply rep body =
     (case body of
        (Inl e, s) \<Rightarrow> and_then (transaction_cleanup tid) (\<lambda>_. return_val rep) s
      | (Inr x, s) \<Rightarrow>
          and_then (transaction_cleanup tid) (\<lambda>_. return_val (set_reply rep x)) s)"

subsection \<open>op_execute_observatory\<close>

text \<open>
  Modelled from the spec: the command names of AgentCommand are in instrument_constants.
  An element of the command list is a command name, an event name (those for which
  \<open>AgentEvent.has\<close> holds), an integer or another string.
\<close>

datatype agent_command = TRANSITION | TRANSMIT_DATA | SLEEP

datatype cmd_arg = Command agent_command | Event agent_event | IntArg int | StrArg string

text \<open>
  The body of the \<open>try\<close>. \<open>cmd[0]\<close> on an empty list raises IndexError. The state machine
  engine (InstrumentFSM) is not among the sources: \<open>on_event_async\<close> is the argument \<open>fsm\<close>.
  \<open>pu.asleep\<close> changes no modelled field. The value is the pair of the local variables
  \<open>success\<close> and \<open>result\<close>.
\<close>

definition execute_observatory_body :: "(agent_event \<Rightarrow> agent \<Rightarrow> (inst_error_code \<times> string option) result) \<Rightarrow> cmd_arg list \<Rightarrow> agent \<Rightarrow> (inst_error_code \<times> string option) result" where
  "execute_observatory_body fsm cmd s =
     (case cmd of
        [] \<Rightarrow> (Inl IndexError, s)
      | c # args \<Rightarrow>
          if c = Command TRANSITION then
            (if length cmd < 2 then (Inr (REQUIRED_PARAMETER, None), s)
             else case cmd ! 1 of
                    Event e \<Rightarrow> fsm e s
                  | _ \<Rightarrow> (Inr (INVALID_PARAM_VALUE, None), s))
          else if c = Command TRANSMIT_DATA then (Inr (NOT_IMPLEMENTED, None), s)
          else if c = Command SLEEP then
            (if length cmd < 2 then (Inr (REQUIRED_PARAMETER, None), s)
             else case cmd ! 1 of
                    IntArg Ltime \<Rightarrow>
                      if Ltime \<le> 0 then (Inr (INVALID_PARAM_VALUE, None), s)
                      else (Inr (OK, None), s)
                  | _ \<Rightarrow> (Inr (INVALID_PARAM_VALUE, None), s))
          else (Inr (UNKNOWN_COMMAND, None), s))"

definition op_execute_observatory :: "(agent_event \<Rightarrow> agent \<Rightarrow> (inst_error_code \<times> string option) result) \<Rightarrow> cmd_arg list \<Rightarrow> string \<Rightarrow> agent \<Rightarrow> reply result" where
  "op_execute_observatory fsm cmd tid s =
     and_then (verify_transaction tid ''execute'')
       (\<lambda>success s1.
          if is_error success then (Inr (empty_reply\<lparr> reply_success := Some success \<rparr>), s1)
          else
            finish_reraising tid
              (\<lambda>rep (success, result). rep\<lparr> reply_success := Some success \<rparr>)
              (empty_reply\<lparr> reply_transaction_id := transaction_id s1 \<rparr>)
              (execute_observatory_body fsm cmd s1))
       (s\<lparr> in_protected_function := True \<rparr>)"

subsection \<open>op_get_device and op_get_device_metadata\<close>

text \<open>
  The driver's reply is a dict read with \<open>dvr_result.get('success', None)\<close> and
  \<open>dvr_result.get('result', None)\<close>: a pair of optional values.
\<close>

definition set_device_reply :: "reply \<Rightarrow> inst_error_code option \<times> string option \<Rightarrow> reply" where
  "set_device_reply rep dvr = rep\<lparr> reply_success := fst dvr, reply_result := snd dvr \<rparr>"

text \<open>
  Both operations run the same statements up to the call of the driver: set the flag, verify
  the transaction, check the agent state.
\<close>

definition get_device_enter :: "string \<Rightarrow> agent \<Rightarrow> progress result" where
  "get_device_enter tid s =
     and_then (verify_transaction tid ''get'')
       (\<lambda>success s1.
          if is_error success then
            (Inr (Replied (empty_reply\<lparr> reply_success := Some success \<rparr>)), s1)
          else
            let rep = empty_reply\<lparr> reply_transaction_id := transaction_id s1 \<rparr>;
                agent_state = current_state s1
            in
            if agent_state \<noteq> OBSERVATORY_MODE \<and> agent_state \<noteq> IDLE \<and> agent_state \<noteq> STOPPED then
              (Inr (Replied (rep\<lparr> reply_success := Some INCORRECT_STATE \<rparr>)), s1)
            else (Inr (Awaiting rep), s1))
       (s\<lparr> in_protected_function := True \<rparr>)"

definition op_get_device_enter :: "string \<Rightarrow> agent \<Rightarrow> progress result" where
  "op_get_device_enter tid s = get_device_enter tid s"

definition op_get_device_resume :: "string \<Rightarrow> reply \<Rightarrow> (inst_error_code option \<times> string option) outcome \<Rightarrow> agent \<Rightarrow> reply result" where
  "op_get_device_resume tid rep env s =
     finish_reraising tid set_device_reply rep
       (case driver_call env s of
          Raised \<Rightarrow> (Inl CollaboratorError, s)
        | Returned dvr_result \<Rightarrow> (Inr dvr_result, s))"

definition op_get_device_metadata_enter :: "string \<Rightarrow> agent \<Rightarrow> progress result" where
  "op_get_device_metadata_enter tid s = get_device_enter tid s"

definition op_get_device_metadata_resume :: "string \<Rightarrow> reply \<Rightarrow> (inst_error_code option \<times> string option) outcome \<Rightarrow> agent \<Rightarrow> reply result" where
  "op_get_device_metadata_resume tid rep env s =
     finish_swallowing tid set_device_reply rep
       (case driver_call env s of
          Raised \<Rightarrow> (Inl CollaboratorError, s)
        | Returned dvr_result \<Rightarrow> (Inr dvr_result, s))"

text \<open>
  A whole operation when nothing else runs while it waits for the driver.
\<close>

definition op_get_device :: "string \<Rightarrow> (inst_error_code option \<times> string option) outcome \<Rightarrow> agent \<Rightarrow> reply result" where
  "op_get_device tid env s =
     and_then (op_get_device_enter tid)
       (\<lambda>p. case p of Replied rep \<Rightarrow> return_val rep | Awaiting rep \<Rightarrow> op_get_device_resume tid rep env)
       s"

definition op_get_device_metadata :: "string \<Rightarrow> (inst_error_code option \<times> string option) outcome \<Rightarrow> agent \<Rightarrow> reply result" where
  "op_get_device_metadata tid env s =
     and_then (op_get_device_metadata_enter tid)
       (\<lambda>p. case p of Replied rep \<Rightarrow> return_val rep
                     | Awaiting rep \<Rightarrow> op_get_device_metadata_resume tid rep env)
       s"

section \<open>Runs of the transaction manager\<close>

text \<open>
  What can happen to the transaction manager from outside: a caller requests a transaction
  (\<open>op_start_transaction\<close> calls \<open>_request_transaction\<close> with the sender as requester), a
  caller ends one (\<open>op_end_transaction\<close> calls \<open>_end_transaction\<close> with the string it
  received), or the reactor runs a delayed call. An exception of a call goes to its caller
  (the reactor logs the one of a delayed call); the agent goes on from the state the call
  left.
\<close>

datatype event =
    RequestTransaction "int option" "int option" string
  | EndTransaction string
  | TimerFires nat

definition step :: "event \<Rightarrow> agent \<Rightarrow> agent" where
  "step e s =
     (case e of
        RequestTransaction acq_timeout exp_timeout requester \<Rightarrow>
          snd (request_transaction acq_timeout exp_timeout requester s)
      | EndTransaction tid \<Rightarrow> snd (end_transaction (Some tid) s)
      | TimerFires call \<Rightarrow> snd (fire call s))"

fun run :: "event list \<Rightarrow> agent \<Rightarrow> agent" where
  "run [] s = s"
| "run (e # es) s = run es (step e s)"

text \<open>The event is the firing of the expiration timer of the current transaction.\<close>

definition is_expiration :: "event \<Rightarrow> agent \<Rightarrow> bool" where
  "is_expiration e s = (case e of TimerFires call \<Rightarrow> transaction_timeout_call s = Some call | _ \<Rightarrow> False)"

text \<open>The Deferreds of the queued requests, in queue order.\<close>

definition waiting :: "agent \<Rightarrow> nat list" where
  "waiting s = map fst (pending_transactions s)"

section \<open>Well-formed states\<close>

text \<open>
  The timeouts are not negative (\<open>plc_init\<close> sets them so and \<open>op_set_observatory\<close> keeps
  them so).
\<close>

definition config_ok :: "agent \<Rightarrow> bool" where
  "config_ok s =
     (0 \<le> max_acq_timeout s \<and> 0 \<le> min_exp_timeout s \<and>
      0 \<le> default_exp_timeout s \<and> 0 \<le> max_exp_timeout s)"

text \<open>The current token, if there is one, has the 36 characters of a UUID string.\<close>

definition token_ok :: "agent \<Rightarrow> bool" where
  "token_ok s = (case transaction_id s of None \<Rightarrow> True | Some t \<Rightarrow> length t = 36)"

text \<open>
  A queued request has a Deferred that exists and has not fired, an acquisition timer that is
  pending in the reactor and runs \<open>acquisition_timeout\<close> for that Deferred, and an
  expiration timeout that is not negative.
\<close>

definition entry_ok :: "agent \<Rightarrow> nat \<times> nat \<times> int \<times> string \<Rightarrow> bool" where
  "entry_ok s entry =
     (case entry of (d, call, exp_timeout, requester) \<Rightarrow>
        d < next_deferred s \<and> deferred_results s d = None \<and> 0 \<le> exp_timeout \<and>
        (case delayed_calls s call of
           None \<Rightarrow> False
         | Some (delay, f) \<Rightarrow> f = AcquisitionTimeout d))"

text \<open>
  The handle kept in \<open>_transaction_timeout_call\<close> is that of a pending delayed call that
  runs \<open>transaction_expired\<close>, and is kept only while a transaction is current.
\<close>

definition timer_ok :: "agent \<Rightarrow> bool" where
  "timer_ok s =
     (case transaction_timeout_call s of
        None \<Rightarrow> True
      | Some call \<Rightarrow>
          transaction_id s \<noteq> None \<and>
          (case delayed_calls s call of
             None \<Rightarrow> False
           | Some (delay, f) \<Rightarrow> f = TransactionExpired))"

text \<open>
  Every pending delayed call has a handle that was given out, and is either the expiration
  timer of the current transaction or the acquisition timer of a queued request.
\<close>

definition calls_ok :: "agent \<Rightarrow> bool" where
  "calls_ok s =
     (\<forall>call. case delayed_calls s call of
        None \<Rightarrow> True
      | Some (delay, f) \<Rightarrow>
          call < next_call s \<and>
          (case f of
             TransactionExpired \<Rightarrow> transaction_timeout_call s = Some call
           | AcquisitionTimeout d \<Rightarrow>
               (\<exists>entry \<in> set (pending_transactions s). fst entry = d \<and> fst (snd entry) = call)))"

text \<open>
  Every Deferred that was constructed is queued or has fired, and no other has fired.
\<close>

definition deferreds_ok :: "agent \<Rightarrow> bool" where
  "deferreds_ok s =
     (\<forall>d. if d < next_deferred s
          then d \<in> set (waiting s) \<or> deferred_results s d \<noteq> None
          else deferred_results s d = None)"

definition agent_inv :: "agent \<Rightarrow> bool" where
  "agent_inv s =
     (config_ok s \<and> token_ok s \<and> timer_ok s \<and> calls_ok s \<and> deferreds_ok s \<and>
      distinct (waiting s) \<and>
      (\<forall>entry \<in> set (pending_transactions s). entry_ok s entry) \<and>
      (pending_transactions s \<noteq> [] \<longrightarrow> transaction_id s \<noteq> None))"

section \<open>Condemning the driver and the Reset handlers\<close>

lemmas handler_defs =
  state_handler_idle_def state_handler_stopped_def state_handler_observatory_mode_def
  state_handler_direct_access_mode_def driver_call_def is_ok_def

text \<open>
  Claim C10. When \<open>_condemn_driver\<close> returns, \<open>_driver_pid\<close> is None: with no driver it
  changes nothing, with a driver it appends the pid to the condemned list and clears pid and
  client. Hence a Reset handler (Idle, Stopped, ObservatoryMode, DirectAccessMode) whose
  disconnect succeeded always finds \<open>_driver_pid == None\<close> and answers OK with next state
  Uninitialized, and whatever the driver answers, no Reset handler returns Inactive as next
  state: the AGENT_DEINIT_FAILED branch is never taken.
\<close>

theorem condemn_driver_clears_pid:
  "driver_pid (condemn_driver s) = None \<and>
   condemn_driver (s\<lparr>driver_pid := None\<rparr>) = s\<lparr>driver_pid := None\<rparr> \<and>
   condemn_driver (s\<lparr>driver_pid := Some pid\<rparr>) =
     s\<lparr>condemned_drivers := condemned_drivers s @ [pid], driver_pid := None, driver_client := None\<rparr> \<and>
   state_handler_idle RESET (Returned OK) (s\<lparr>driver_client := Some c\<rparr>) =
     ((OK, Some UNINITIALIZED, None), condemn_driver (s\<lparr>driver_client := Some c\<rparr>)) \<and>
   state_handler_stopped RESET (Returned OK) (s\<lparr>driver_client := Some c\<rparr>) =
     ((OK, Some UNINITIALIZED, None), condemn_driver (s\<lparr>driver_client := Some c\<rparr>)) \<and>
   state_handler_observatory_mode RESET (Returned OK) (s\<lparr>driver_client := Some c\<rparr>) =
     ((OK, Some UNINITIALIZED, None), condemn_driver (s\<lparr>driver_client := Some c\<rparr>)) \<and>
   state_handler_direct_access_mode RESET (Returned OK) socat (s\<lparr>driver_client := Some c\<rparr>) =
     ((OK, Some UNINITIALIZED, None), condemn_driver (s\<lparr>driver_client := Some c\<rparr>)) \<and>
   fst (snd (fst (state_handler_idle RESET env s))) \<noteq> Some INACTIVE \<and>
   fst (snd (fst (state_handler_stopped RESET env s))) \<noteq> Some INACTIVE \<and>
   fst (snd (fst (state_handler_observatory_mode RESET env s))) \<noteq> Some INACTIVE \<and>
   fst (snd (fst (state_handler_direct_access_mode RESET env socat s))) \<noteq> Some INACTIVE"
  by (auto simp: condemn_driver_def handler_defs Let_def split: option.splits outcome.splits)

lemmas monad_defs = and_then_def return_val_def

text \<open>
  What the Reset branches have in common. In Idle, Stopped and DirectAccessMode an exception of
  the disconnect is answered with DRIVER_CONNECT_FAILED, as it is in the GO_INACTIVE branch of
  all four handlers, with no next state and the agent unchanged. In all four handlers a
  disconnect that returns a code that is not OK is answered with that code, again with no next
  state and the agent unchanged, and only a disconnect that returns OK condemns the driver.
\<close>

lemma reset_siblings_connect_failed:
  "state_handler_idle RESET Raised s = ((DRIVER_CONNECT_FAILED, None, None), s) \<and>
   state_handler_stopped RESET Raised s = ((DRIVER_CONNECT_FAILED, None, None), s) \<and>
   state_handler_direct_access_mode RESET Raised socat s = ((DRIVER_CONNECT_FAILED, None, None), s) \<and>
   state_handler_idle GO_INACTIVE Raised s = ((DRIVER_CONNECT_FAILED, None, None), s) \<and>
   state_handler_stopped GO_INACTIVE Raised s = ((DRIVER_CONNECT_FAILED, None, None), s) \<and>
   state_handler_observatory_mode GO_INACTIVE Raised s = ((DRIVER_CONNECT_FAILED, None, None), s) \<and>
   state_handler_direct_access_mode GO_INACTIVE Raised socat s = ((DRIVER_CONNECT_FAILED, None, None), s)"
  by (simp add: handler_defs go_inactive_def)

lemma reset_after_disconnect_returns:
  "state_handler_idle RESET (Returned c) (s\<lparr>driver_client := Some cl\<rparr>) =
     (if is_ok c then
        (if driver_pid (condemn_driver (s\<lparr>driver_client := Some cl\<rparr>)) = None
         then ((c, Some UNINITIALIZED, None), condemn_driver (s\<lparr>driver_client := Some cl\<rparr>))
         else ((AGENT_DEINIT_FAILED, Some INACTIVE, None), condemn_driver (s\<lparr>driver_client := Some cl\<rparr>)))
      else ((c, None, None), s\<lparr>driver_client := Some cl\<rparr>)) \<and>
   state_handler_stopped RESET (Returned c) (s\<lparr>driver_client := Some cl\<rparr>) =
     (if is_ok c then
        (if driver_pid (condemn_driver (s\<lparr>driver_client := Some cl\<rparr>)) = None
         then ((c, Some UNINITIALIZED, None), condemn_driver (s\<lparr>driver_client := Some cl\<rparr>))
         else ((AGENT_DEINIT_FAILED, Some INACTIVE, None), condemn_driver (s\<lparr>driver_client := Some cl\<rparr>)))
      else ((c, None, None), s\<lparr>driver_client := Some cl\<rparr>)) \<and>
   state_handler_observatory_mode RESET (Returned c) (s\<lparr>driver_client := Some cl\<rparr>) =
     (if is_ok c then
        (if driver_pid (condemn_driver (s\<lparr>driver_client := Some cl\<rparr>)) = None
         then ((c, Some UNINITIALIZED, None), condemn_driver (s\<lparr>driver_client := Some cl\<rparr>))
         else ((AGENT_DEINIT_FAILED, Some INACTIVE, None), condemn_driver (s\<lparr>driver_client := Some cl\<rparr>)))
      else ((c, None, None), s\<lparr>driver_client := Some cl\<rparr>)) \<and>
   state_handler_direct_access_mode RESET (Returned c) socat (s\<lparr>driver_client := Some cl\<rparr>) =
     (if is_ok c then
        (if driver_pid (condemn_driver (s\<lparr>driver_client := Some cl\<rparr>)) = None
         then ((c, Some UNINITIALIZED, None), condemn_driver (s\<lparr>driver_client := Some cl\<rparr>))
         else ((AGENT_DEINIT_FAILED, Some INACTIVE, None), condemn_driver (s\<lparr>driver_client := Some cl\<rparr>)))
      else ((c, None, None), s\<lparr>driver_client := Some cl\<rparr>))"
  by (simp add: handler_defs Let_def)

text \<open>
  Claim C9 asks that every Reset handler maps an exception of the disconnect to
  DRIVER_CONNECT_FAILED. The handler of ObservatoryMode does not: with a live driver, a
  disconnect that raises on Reset is answered with DRIVER_DISCONNECT_FAILED, the agent staying
  as it was. On the same agent the Reset branches of Idle, Stopped and DirectAccessMode and the
  GO_INACTIVE branch of ObservatoryMode itself answer the same exception with
  DRIVER_CONNECT_FAILED: of the eight branches that guard a disconnect, this one alone answers
  otherwise.
\<close>

theorem observatory_reset_disconnect_failed:
  "state_handler_observatory_mode RESET Raised
      ((plc_init (\<lambda>n. 0))\<lparr>driver_pid := Some 1, driver_client := Some 1,
         current_state := OBSERVATORY_MODE\<rparr>) =
     ((DRIVER_DISCONNECT_FAILED, None, None),
      (plc_init (\<lambda>n. 0))\<lparr>driver_pid := Some 1, driver_client := Some 1,
         current_state := OBSERVATORY_MODE\<rparr>) \<and>
   DRIVER_DISCONNECT_FAILED \<noteq> DRIVER_CONNECT_FAILED \<and>
   fst (fst (state_handler_observatory_mode GO_INACTIVE Raised
      ((plc_init (\<lambda>n. 0))\<lparr>driver_pid := Some 1, driver_client := Some 1,
         current_state := OBSERVATORY_MODE\<rparr>))) = DRIVER_CONNECT_FAILED \<and>
   fst (fst (state_handler_idle RESET Raised
      ((plc_init (\<lambda>n. 0))\<lparr>driver_pid := Some 1, driver_client := Some 1,
         current_state := OBSERVATORY_MODE\<rparr>))) = DRIVER_CONNECT_FAILED \<and>
   fst (fst (state_handler_stopped RESET Raised
      ((plc_init (\<lambda>n. 0))\<lparr>driver_pid := Some 1, driver_client := Some 1,
         current_state := OBSERVATORY_MODE\<rparr>))) = DRIVER_CONNECT_FAILED \<and>
   fst (fst (state_handler_direct_access_mode RESET Raised (NOT_IMPLEMENTED, None)
      ((plc_init (\<lambda>n. 0))\<lparr>driver_pid := Some 1, driver_client := Some 1,
         current_state := OBSERVATORY_MODE\<rparr>))) = DRIVER_CONNECT_FAILED"
  by (simp add: handler_defs go_inactive_def)

lemmas op_defs = op_get_device_enter_def op_get_device_metadata_enter_def get_device_enter_def
  op_get_device_def op_get_device_metadata_def op_get_device_resume_def
  op_get_device_metadata_resume_def op_execute_observatory_def verify_transaction_def
  is_error_def is_ok_def empty_reply_def

section \<open>Protected operations that return before their cleanup\<close>

text \<open>
  Claim C6 asks that the in-protected-function flag is cleared when \<open>_verify_transaction\<close>
  fails. The code returns before the \<open>try\<close> whose \<open>finally\<close> clears it: on a fresh agent,
  \<open>op_get_device\<close> and \<open>op_execute_observatory\<close> called with the transaction id
  \<open>bogus\<close> reply INVALID_TRANSACTION_ID and leave the flag set.
\<close>

theorem failed_verify_leaves_flag_set:
  "op_get_device_enter ''bogus'' (plc_init (\<lambda>n. 0)) =
     (Inr (Replied (empty_reply\<lparr>reply_success := Some INVALID_TRANSACTION_ID\<rparr>)),
      (plc_init (\<lambda>n. 0))\<lparr>in_protected_function := True\<rparr>) \<and>
   op_execute_observatory (\<lambda>e s. (Inr (OK, None), s)) [Command TRANSMIT_DATA] ''bogus'' (plc_init (\<lambda>n. 0)) =
     (Inr (empty_reply\<lparr>reply_success := Some INVALID_TRANSACTION_ID\<rparr>),
      (plc_init (\<lambda>n. 0))\<lparr>in_protected_function := True\<rparr>)"
  by (simp add: op_defs monad_defs)

lemmas tm_defs = start_transaction_def end_transaction_def request_transaction_def
  transaction_expired_def fire_def callLater_def cancel_def callback_def Deferred_def
  str_uuid4_def clamp_exp_timeout_def clamp_acq_timeout_def none_or_nonneg_def
  transaction_cleanup_def

text \<open>
  Claim C8 asks that the transaction created for the transaction id \<open>create\<close> is ended
  before the operation replies, on every outcome. On a fresh agent (state Uninitialized),
  \<open>op_get_device\<close> with \<open>create\<close> starts the implicit transaction, replies
  INCORRECT_STATE from the state check, which returns before the \<open>try\<close>, and leaves the
  transaction current with its expiration timer pending and the flag set.
\<close>

theorem implicit_transaction_left_open:
  "op_get_device ''create'' (Returned (Some OK, None)) (plc_init (\<lambda>n. 0)) =
     (Inr (empty_reply\<lparr>reply_success := Some INCORRECT_STATE,
             reply_transaction_id := Some (str_uuid 0)\<rparr>),
      (plc_init (\<lambda>n. 0))\<lparr>in_protected_function := True,
         transaction_id := Some (str_uuid 0), transaction_timeout_call := Some 0,
         delayed_calls := [0 \<mapsto> (300, TransactionExpired)], next_call := 1, entropy_pos := 1\<rparr>)"
  by (simp add: op_defs monad_defs tm_defs plc_init_def Let_def)

text \<open>
  What \<open>transaction_expired\<close> does is decided by the flag alone: with the flag set it only
  records the expiry, with the flag clear it ends the current transaction.
\<close>

lemma transaction_expired_flag_set:
  "in_protected_function s \<Longrightarrow>
   transaction_expired s =
     (Inr (), s\<lparr>transaction_timeout_call := None, transaction_timed_out := True\<rparr>)"
  by (simp add: transaction_expired_def Let_def)

lemma transaction_expired_flag_clear:
  "\<not> in_protected_function s \<Longrightarrow>
   transaction_expired s =
     and_then (end_transaction (transaction_id s)) (\<lambda>_. return_val ())
       (s\<lparr>transaction_timeout_call := None\<rparr>)"
  by (simp add: transaction_expired_def Let_def)

text \<open>
  Claim C4 asks that a transaction whose expiration timer fires while no protected operation
  is executing is ended at once. A caller holds a transaction with an expiration timeout of
  2 seconds; \<open>op_get_device\<close> with the transaction id \<open>bogus\<close> replies and returns, leaving
  the flag set; then the expiration timer fires. No protected operation is executing, yet
  the transaction stays current: only the timed-out flag is set.
\<close>

theorem expiry_with_stuck_flag:
  "(let s1 = step (RequestTransaction None (Some 2) ''holder'') (plc_init (\<lambda>n. 0));
        r = op_get_device_enter ''bogus'' s1;
        s3 = step (TimerFires 0) (snd r)
    in transaction_id s1 = Some (str_uuid 0) \<and>
       delayed_calls s1 0 = Some (2, TransactionExpired) \<and>
       fst r = Inr (Replied (empty_reply\<lparr>reply_success := Some INVALID_TRANSACTION_ID\<rparr>)) \<and>
       transaction_id s3 = Some (str_uuid 0) \<and>
       transaction_timed_out s3 \<and> in_protected_function s3 \<and> delayed_calls s3 = Map.empty)"
  by (simp add: op_defs monad_defs tm_defs plc_init_def Let_def step_def)

section \<open>Facts about well-formed states\<close>


lemma callLater_ok:
  "0 \<le> delay \<Longrightarrow> callLater delay f s =
     (Inr (next_call s),
      s\<lparr>delayed_calls := (delayed_calls s)(next_call s \<mapsto> (delay, f)), next_call := Suc (next_call s)\<rparr>)"
  by (simp add: callLater_def)

lemma cancel_ok:
  "delayed_calls s call = Some x \<Longrightarrow>
   cancel call s = (Inr (), s\<lparr>delayed_calls := (delayed_calls s)(call := None)\<rparr>)"
  by (simp add: cancel_def)

lemma callback_ok:
  "deferred_results s d = None \<Longrightarrow>
   callback d v s = (Inr (), s\<lparr>deferred_results := (deferred_results s)(d \<mapsto> v)\<rparr>)"
  by (simp add: callback_def)

lemma clamp_exp_nonneg:
  "config_ok s \<Longrightarrow> none_or_nonneg e \<Longrightarrow> 0 \<le> clamp_exp_timeout e s"
  by (auto simp: config_ok_def none_or_nonneg_def clamp_exp_timeout_def split: option.splits)

lemma clamp_acq_nonneg:
  "config_ok s \<Longrightarrow> none_or_nonneg a \<Longrightarrow> 0 \<le> clamp_acq_timeout a s"
  by (auto simp: config_ok_def none_or_nonneg_def clamp_acq_timeout_def split: option.splits)

lemma length_hex: "length (hex k n) = k"
  by (induction k arbitrary: n) auto

lemma length_str_uuid: "length (str_uuid n) = 36"
  by (simp add: str_uuid_def length_hex)

lemma start_transaction_free:
  assumes "transaction_id s = None" "none_or_nonneg e" "config_ok s"
  shows "start_transaction e s =
     (Inr (OK, Some (str_uuid (entropy s (entropy_pos s) mod 2 ^ 128))),
      s\<lparr>entropy_pos := Suc (entropy_pos s),
        transaction_id := Some (str_uuid (entropy s (entropy_pos s) mod 2 ^ 128)),
        delayed_calls := (delayed_calls s)(next_call s \<mapsto> (clamp_exp_timeout e s, TransactionExpired)),
        next_call := Suc (next_call s),
        transaction_timeout_call := Some (next_call s)\<rparr>)"
  using assms clamp_exp_nonneg[of s e]
  by (simp add: start_transaction_def str_uuid4_def monad_defs callLater_def Let_def)

lemma start_transaction_locked:
  "transaction_id s \<noteq> None \<Longrightarrow> none_or_nonneg e \<Longrightarrow>
   start_transaction e s = (Inr (LOCKED_RESOURCE, None), s)"
  by (auto simp: start_transaction_def)



lemma calls_ok_iff:
  "calls_ok s \<longleftrightarrow>
     (\<forall>call delay.
        (delayed_calls s call = Some (delay, TransactionExpired) \<longrightarrow>
           call < next_call s \<and> transaction_timeout_call s = Some call) \<and>
        (\<forall>d. delayed_calls s call = Some (delay, AcquisitionTimeout d) \<longrightarrow>
           call < next_call s \<and> (\<exists>e r. (d, call, e, r) \<in> set (pending_transactions s))))"
  unfolding calls_ok_def
  apply (rule iffI)
   apply (intro allI conjI impI)
      apply (drule_tac x = call in spec, simp)
     apply (drule_tac x = call in spec, simp)
    apply (drule_tac x = call in spec, simp)
   apply (drule_tac x = call in spec, force)
  apply (rule allI)
  apply (case_tac "delayed_calls s call")
   apply simp
  apply (case_tac a)
  apply (case_tac b)
   apply simp
  apply (force simp: Bex_def)
  done

lemma entry_ok_iff:
  "entry_ok s (d, call, e, r) \<longleftrightarrow>
     d < next_deferred s \<and> deferred_results s d = None \<and> 0 \<le> e \<and>
     (\<exists>delay. delayed_calls s call = Some (delay, AcquisitionTimeout d))"
  by (auto simp: entry_ok_def split: option.splits)

lemma timer_ok_iff:
  "timer_ok s \<longleftrightarrow>
     (\<forall>call. transaction_timeout_call s = Some call \<longrightarrow>
        transaction_id s \<noteq> None \<and> (\<exists>delay. delayed_calls s call = Some (delay, TransactionExpired)))"
  by (auto simp: timer_ok_def split: option.splits)

lemma deferreds_ok_iff:
  "deferreds_ok s \<longleftrightarrow>
     (\<forall>d. (d < next_deferred s \<longrightarrow> d \<in> set (waiting s) \<or> deferred_results s d \<noteq> None) \<and>
          (\<not> d < next_deferred s \<longrightarrow> deferred_results s d = None))"
  by (auto simp: deferreds_ok_def)

lemma entries_ok_iff:
  "(\<forall>entry \<in> set (pending_transactions s). entry_ok s entry) \<longleftrightarrow>
     (\<forall>d call e r. (d, call, e, r) \<in> set (pending_transactions s) \<longrightarrow>
        d < next_deferred s \<and> deferred_results s d = None \<and> 0 \<le> e \<and>
        (\<exists>delay. delayed_calls s call = Some (delay, AcquisitionTimeout d)))"
  using entry_ok_iff by (auto simp: Ball_def)

lemmas inv_iffs = calls_ok_iff timer_ok_iff deferreds_ok_iff entries_ok_iff

lemma inv_timer_pending:
  "agent_inv s \<Longrightarrow> transaction_timeout_call s = Some call \<Longrightarrow>
   \<exists>delay. delayed_calls s call = Some (delay, TransactionExpired)"
  by (auto simp: agent_inv_def timer_ok_def split: option.splits)

lemma inv_entry:
  "agent_inv s \<Longrightarrow> (d, call, e, r) \<in> set (pending_transactions s) \<Longrightarrow>
   d < next_deferred s \<and> deferred_results s d = None \<and> 0 \<le> e \<and>
   (\<exists>delay. delayed_calls s call = Some (delay, AcquisitionTimeout d))"
  by (force simp: agent_inv_def entry_ok_def split: option.splits)

lemma inv_entry_not_timer:
  "agent_inv s \<Longrightarrow> (d, call, e, r) \<in> set (pending_transactions s) \<Longrightarrow>
   transaction_timeout_call s \<noteq> Some call"
  using inv_entry[of s d call e r] inv_timer_pending[of s call] by auto

lemma inv_calls_bound:
  "agent_inv s \<Longrightarrow> delayed_calls s call = Some x \<Longrightarrow> call < next_call s"
  by (cases x) (auto simp: agent_inv_def calls_ok_def split: option.splits dest!: spec[of _ call])

lemma end_transaction_match_empty:
  assumes "agent_inv s" "transaction_id s = Some t" "pending_transactions s = []"
  shows "end_transaction (Some t) s =
     (Inr OK,
      s\<lparr>transaction_id := None, transaction_timed_out := False,
        transaction_timeout_call := None,
        delayed_calls := (case transaction_timeout_call s of
                            None \<Rightarrow> delayed_calls s
                          | Some call \<Rightarrow> (delayed_calls s)(call := None))\<rparr>)"
proof (cases "transaction_timeout_call s")
  case None
  with assms show ?thesis
    by (simp add: end_transaction_def monad_defs Let_def)
next
  case (Some call)
  with inv_timer_pending[OF assms(1) Some] assms show ?thesis
    by (auto simp: end_transaction_def monad_defs Let_def cancel_def)
qed

lemma end_transaction_match_head:
  assumes "agent_inv s" "transaction_id s = Some t"
    and p: "pending_transactions s = (d, call, e, r) # rest"
  shows "end_transaction (Some t) s =
     (Inr OK,
      s\<lparr>transaction_id := Some (str_uuid (entropy s (entropy_pos s) mod 2 ^ 128)),
        transaction_timed_out := False,
        transaction_timeout_call := Some (next_call s),
        pending_transactions := rest,
        delayed_calls :=
          ((case transaction_timeout_call s of
              None \<Rightarrow> delayed_calls s
            | Some c \<Rightarrow> (delayed_calls s)(c := None))(call := None))
             (next_call s \<mapsto> (clamp_exp_timeout (Some e) s, TransactionExpired)),
        next_call := Suc (next_call s),
        entropy_pos := Suc (entropy_pos s),
        deferred_results :=
          (deferred_results s)(d \<mapsto> (OK, Some (str_uuid (entropy s (entropy_pos s) mod 2 ^ 128))))\<rparr>)"
proof -
  have mem: "(d, call, e, r) \<in> set (pending_transactions s)" using p by simp
  from inv_entry[OF assms(1) mem] obtain delay where
    e: "0 \<le> e" and dn: "deferred_results s d = None"
    and dc: "delayed_calls s call = Some (delay, AcquisitionTimeout d)" by auto
  have nt: "transaction_timeout_call s \<noteq> Some call"
    by (rule inv_entry_not_timer[OF assms(1) mem])
  have cfg: "config_ok s" using assms(1) by (simp add: agent_inv_def)
  show ?thesis
  proof (cases "transaction_timeout_call s")
    case None
    with assms e dn dc cfg show ?thesis
      by (simp add: end_transaction_def monad_defs Let_def cancel_def
          start_transaction_free none_or_nonneg_def clamp_exp_timeout_def callback_def config_ok_def)
  next
    case (Some c)
    with inv_timer_pending[OF assms(1) Some] nt assms e dn dc cfg show ?thesis
      by (auto simp: end_transaction_def monad_defs Let_def cancel_def
          start_transaction_free none_or_nonneg_def clamp_exp_timeout_def callback_def config_ok_def)
  qed
qed


lemma inv_end_empty:
  assumes i: "agent_inv s" and t: "transaction_id s = Some t" and p: "pending_transactions s = []"
  shows "agent_inv (snd (end_transaction (Some t) s))"
  using i p unfolding end_transaction_match_empty[OF i t p] agent_inv_def inv_iffs
  by (auto simp: config_ok_def token_ok_def waiting_def split: option.splits)


lemma inv_end_head:
  assumes i: "agent_inv s" and t: "transaction_id s = Some t"
    and p: "pending_transactions s = (d, call, e, r) # rest"
  shows "agent_inv (snd (end_transaction (Some t) s))"
proof -
  let ?u = "str_uuid (entropy s (entropy_pos s) mod 2 ^ 128)"
  let ?dc = "((case transaction_timeout_call s of
              None \<Rightarrow> delayed_calls s
            | Some c \<Rightarrow> (delayed_calls s)(c := None))(call := None))
             (next_call s \<mapsto> (clamp_exp_timeout (Some e) s, TransactionExpired))"
  let ?s' = "s\<lparr>transaction_id := Some ?u,
        transaction_timed_out := False,
        transaction_timeout_call := Some (next_call s),
        pending_transactions := rest,
        delayed_calls := ?dc,
        next_call := Suc (next_call s),
        entropy_pos := Suc (entropy_pos s),
        deferred_results := (deferred_results s)(d \<mapsto> (OK, Some ?u))\<rparr>"
  have eq: "snd (end_transaction (Some t) s) = ?s'"
    by (simp add: end_transaction_match_head[OF i t p])
  from i have cfg: "config_ok s" and c: "calls_ok s" and df: "deferreds_ok s"
    and ds: "distinct (waiting s)" and en: "\<forall>entry \<in> set (pending_transactions s). entry_ok s entry"
    by (simp_all add: agent_inv_def)
  have fresh: "delayed_calls s (next_call s) = None"
    using c unfolding calls_ok_iff
    by (cases "delayed_calls s (next_call s)") (auto, case_tac b, auto)
  have dnr: "d \<notin> fst ` set rest" and dr: "distinct (map fst rest)"
    using ds p by (auto simp: waiting_def)
  have 1: "config_ok ?s'" using cfg by (simp add: config_ok_def)
  have 2: "token_ok ?s'" by (simp add: token_ok_def length_str_uuid)
  have 3: "timer_ok ?s'" by (simp add: timer_ok_iff)
  have dc_other: "\<And>c x. ?dc c = Some x \<Longrightarrow> c \<noteq> next_call s \<Longrightarrow> delayed_calls s c = Some x \<and> c \<noteq> call"
    by (auto split: option.splits if_splits)
  have 4: "calls_ok ?s'"
    unfolding calls_ok_iff
  proof (intro allI conjI impI)
    fix c delay
    assume a: "delayed_calls ?s' c = Some (delay, TransactionExpired)"
    show "c < next_call ?s'"
      using a c[unfolded calls_ok_iff] by (auto split: option.splits if_splits)
    show "transaction_timeout_call ?s' = Some c"
      using a c[unfolded calls_ok_iff] by (auto split: option.splits if_splits)
  next
    fix c delay d'
    assume a: "delayed_calls ?s' c = Some (delay, AcquisitionTimeout d')"
    then have b: "delayed_calls s c = Some (delay, AcquisitionTimeout d')" and cc: "c \<noteq> call"
      by (auto split: option.splits if_splits)
    from b c[unfolded calls_ok_iff] obtain e' r' where
      cl: "c < next_call s" and m: "(d', c, e', r') \<in> set (pending_transactions s)" by blast
    show "c < next_call ?s'" using cl by simp
    from m cc p have "(d', c, e', r') \<in> set rest" by auto
    then show "\<exists>e r. (d', c, e, r) \<in> set (pending_transactions ?s')" by auto
  qed
  have dlt: "d < next_deferred s"
    using en[unfolded entries_ok_iff] p by auto
  have 5: "deferreds_ok ?s'"
    using df p dlt unfolding deferreds_ok_iff by (auto simp: waiting_def)
  have 6: "distinct (waiting ?s')" using dr by (simp add: waiting_def)
  have 7: "\<forall>entry \<in> set (pending_transactions ?s'). entry_ok ?s' entry"
    unfolding entries_ok_iff
  proof (intro allI impI)
    fix d' c e' r'
    assume a: "(d', c, e', r') \<in> set (pending_transactions ?s')"
    then have m: "(d', c, e', r') \<in> set rest" by simp
    then have m': "(d', c, e', r') \<in> set (pending_transactions s)" using p by simp
    from en[unfolded entries_ok_iff] m' obtain delay where
      x: "d' < next_deferred s" "deferred_results s d' = None" "0 \<le> e'"
      "delayed_calls s c = Some (delay, AcquisitionTimeout d')" by blast
    have nd: "d' \<noteq> d" using m dnr by force
    have "(d, call, e, r) \<in> set (pending_transactions s)" using p by simp
    with en[unfolded entries_ok_iff] obtain delay' where
      y: "delayed_calls s call = Some (delay', AcquisitionTimeout d)" by blast
    have nc: "c \<noteq> call" using x(4) y nd by auto
    have nn: "c \<noteq> next_call s" using x(4) fresh by auto
    have nt: "transaction_timeout_call s \<noteq> Some c"
      using i x(4) by (auto simp: agent_inv_def timer_ok_iff)
    show "d' < next_deferred ?s' \<and> deferred_results ?s' d' = None \<and> 0 \<le> e' \<and>
        (\<exists>delay. delayed_calls ?s' c = Some (delay, AcquisitionTimeout d'))"
      using x nd nc nn nt by (auto split: option.splits)
  qed
  have 8: "pending_transactions ?s' \<noteq> [] \<longrightarrow> transaction_id ?s' \<noteq> None" by simp
  show ?thesis
    unfolding eq agent_inv_def using 1 2 3 4 5 6 7 8 by blast
qed


lemma end_transaction_other:
  "transaction_id s \<noteq> Some t \<Longrightarrow>
   end_transaction (Some t) s =
     (Inr (if transaction_id s = None then RESOURCE_NOT_LOCKED else LOCKED_RESOURCE), s)"
  by (auto simp: end_transaction_def)

lemma inv_end_transaction:
  assumes "agent_inv s"
  shows "agent_inv (snd (end_transaction tid s))"
proof (cases tid)
  case None
  then show ?thesis using assms by (simp add: end_transaction_def)
next
  case (Some t)
  show ?thesis
  proof (cases "transaction_id s = Some t")
    case True
    show ?thesis
    proof (cases "pending_transactions s")
      case Nil
      then show ?thesis using inv_end_empty[OF assms True] Some by simp
    next
      case (Cons entry rest)
      obtain d call e r where "entry = (d, call, e, r)" by (cases entry) auto
      with Cons inv_end_head[OF assms True] Some show ?thesis by simp
    qed
  next
    case False
    then show ?thesis using assms Some by (simp add: end_transaction_other)
  qed
qed

lemma end_transaction_match_ok:
  assumes "agent_inv s" "transaction_id s = Some t"
  shows "fst (end_transaction (Some t) s) = Inr OK"
proof (cases "pending_transactions s")
  case Nil
  then show ?thesis using end_transaction_match_empty[OF assms] by simp
next
  case (Cons entry rest)
  obtain d call e r where "entry = (d, call, e, r)" by (cases entry) auto
  with Cons end_transaction_match_head[OF assms] show ?thesis by simp
qed

lemma loop_no_match:
  "(\<forall>j. i \<le> j \<and> j < length (pending_transactions s) \<longrightarrow> fst (pending_transactions s ! j) \<noteq> d)
   \<Longrightarrow> acquisition_timeout_loop d i s = (Inr (), s)"
proof (induction "length (pending_transactions s) - i" arbitrary: i)
  case 0
  then show ?case by (simp add: acquisition_timeout_loop.simps[of d i s])
next
  case (Suc n)
  from Suc.hyps(2) have lt: "i < length (pending_transactions s)" by simp
  have ne: "fst (pending_transactions s ! i) \<noteq> d" using Suc.prems lt by simp
  have "acquisition_timeout_loop d (Suc i) s = (Inr (), s)"
    using Suc.hyps(2) Suc.prems by (intro Suc.hyps(1)) auto
  then show ?case using lt ne by (simp add: acquisition_timeout_loop.simps[of d i s] Let_def)
qed

lemma distinct_fst_remove1:
  assumes "distinct (map fst ps)" "k < length ps" "x \<in> set (remove1 (ps ! k) ps)"
  shows "fst x \<noteq> fst (ps ! k)"
proof -
  have d: "distinct ps" and inj: "inj_on fst (set ps)" using assms(1) by (auto simp: distinct_map)
  have "x \<in> set ps" "x \<noteq> ps ! k" using assms(3) d by auto
  moreover have "ps ! k \<in> set ps" using assms(2) by simp
  ultimately show ?thesis using inj by (auto dest: inj_onD)
qed

lemma loop_match:
  assumes "distinct (map fst (pending_transactions s))" "i \<le> k"
    "k < length (pending_transactions s)" "fst (pending_transactions s ! k) = d"
    "deferred_results s d = None"
  shows "acquisition_timeout_loop d i s =
     (Inr (), s\<lparr>pending_transactions := remove1 (pending_transactions s ! k) (pending_transactions s),
               deferred_results := (deferred_results s)(d \<mapsto> (TIMEOUT, None))\<rparr>)"
  using assms
proof (induction "k - i" arbitrary: i)
  case 0
  then have ik: "i = k" by simp
  let ?ps = "pending_transactions s"
  let ?s' = "s\<lparr>pending_transactions := remove1 (?ps ! k) ?ps,
               deferred_results := (deferred_results s)(d \<mapsto> (TIMEOUT, None))\<rparr>"
  have "\<forall>j. Suc k \<le> j \<and> j < length (pending_transactions ?s') \<longrightarrow>
          fst (pending_transactions ?s' ! j) \<noteq> d"
    using distinct_fst_remove1[OF "0.prems"(1) "0.prems"(3)] "0.prems"(4)
    by (auto dest!: nth_mem)
  then have rest: "acquisition_timeout_loop d (Suc k) ?s' = (Inr (), ?s')"
    by (rule loop_no_match)
  have cb: "callback d (TIMEOUT, None) (s\<lparr>pending_transactions := remove1 (?ps ! k) ?ps\<rparr>) = (Inr (), ?s')"
    using "0.prems"(5) by (simp add: callback_def)
  have "acquisition_timeout_loop d k s =
      (case callback d (TIMEOUT, None) (s\<lparr>pending_transactions := remove1 (?ps ! k) ?ps\<rparr>) of
         (Inl e, s') \<Rightarrow> (Inl e, s')
       | (Inr _, s') \<Rightarrow> acquisition_timeout_loop d (Suc k) s')"
    apply (subst acquisition_timeout_loop.simps)
    apply (simp only: "0.prems"(3) "0.prems"(4) if_True Let_def refl)
    done
  then show ?case unfolding ik cb by (simp only: rest prod.case sum.case)
next
  case (Suc n)
  then have lt: "i < k" by simp
  let ?ps = "pending_transactions s"
  have "fst (?ps ! i) \<noteq> fst (?ps ! k)"
    using Suc.prems(1,3) lt by (simp add: distinct_conv_nth)
  then have ne: "fst (?ps ! i) \<noteq> d" using Suc.prems(4) by simp
  have "acquisition_timeout_loop d (Suc i) s =
     (Inr (), s\<lparr>pending_transactions := remove1 (?ps ! k) ?ps,
               deferred_results := (deferred_results s)(d \<mapsto> (TIMEOUT, None))\<rparr>)"
    using Suc.hyps(2) Suc.prems lt by (intro Suc.hyps(1)) auto
  then show ?case using lt ne Suc.prems(3)
    by (simp add: acquisition_timeout_loop.simps[of d i s] Let_def)
qed

lemma acquisition_timeout_entry:
  assumes ds: "distinct (waiting s)" and m: "(d, call, e, r) \<in> set (pending_transactions s)"
    and n: "deferred_results s d = None"
  shows "acquisition_timeout d s =
     (Inr (), s\<lparr>pending_transactions := remove1 (d, call, e, r) (pending_transactions s),
               deferred_results := (deferred_results s)(d \<mapsto> (TIMEOUT, None))\<rparr>)"
proof -
  from m obtain k where k: "k < length (pending_transactions s)" "pending_transactions s ! k = (d, call, e, r)"
    by (auto simp: in_set_conv_nth)
  show ?thesis
    unfolding acquisition_timeout_def
    using loop_match[of s 0 k d] ds k n by (simp add: waiting_def)
qed

lemma inv_fresh_call: "agent_inv s \<Longrightarrow> delayed_calls s (next_call s) = None"
  using inv_calls_bound[of s "next_call s"] by (cases "delayed_calls s (next_call s)") auto

lemma inv_fresh_deferred: "agent_inv s \<Longrightarrow> deferred_results s (next_deferred s) = None"
  by (auto simp: agent_inv_def deferreds_ok_iff)

lemma inv_free_no_timer:
  "agent_inv s \<Longrightarrow> transaction_id s = None \<Longrightarrow>
   transaction_timeout_call s = None \<and> pending_transactions s = []"
  by (cases "transaction_timeout_call s") (auto simp: agent_inv_def timer_ok_iff)

lemma request_transaction_free:
  assumes i: "agent_inv s" and a: "none_or_nonneg acq" and e: "none_or_nonneg ex"
    and f: "transaction_id s = None"
  shows "request_transaction acq ex r s =
     (Inr (next_deferred s),
      s\<lparr>next_deferred := Suc (next_deferred s),
        entropy_pos := Suc (entropy_pos s),
        transaction_id := Some (str_uuid (entropy s (entropy_pos s) mod 2 ^ 128)),
        delayed_calls := (delayed_calls s)
          (next_call s \<mapsto> (clamp_exp_timeout (Some (clamp_exp_timeout ex s)) s, TransactionExpired)),
        next_call := Suc (next_call s),
        transaction_timeout_call := Some (next_call s),
        deferred_results := (deferred_results s)
          (next_deferred s \<mapsto> (OK, Some (str_uuid (entropy s (entropy_pos s) mod 2 ^ 128))))\<rparr>)"
proof -
  have cfg: "config_ok s" using i by (simp add: agent_inv_def)
  have ce: "0 \<le> clamp_exp_timeout ex s" by (rule clamp_exp_nonneg[OF cfg e])
  show ?thesis
    using a e f cfg ce inv_fresh_deferred[OF i]
    by (simp add: request_transaction_def Deferred_def Let_def monad_defs
        start_transaction_free none_or_nonneg_def config_ok_def clamp_exp_timeout_def callback_def)
qed

lemma request_transaction_locked_nowait:
  assumes i: "agent_inv s" and a: "none_or_nonneg acq" and e: "none_or_nonneg ex"
    and f: "transaction_id s \<noteq> None" and z: "clamp_acq_timeout acq s = 0"
  shows "request_transaction acq ex r s =
     (Inr (next_deferred s),
      s\<lparr>next_deferred := Suc (next_deferred s),
        deferred_results := (deferred_results s)(next_deferred s \<mapsto> (LOCKED_RESOURCE, None))\<rparr>)"
  using a e f z inv_fresh_deferred[OF i]
  by (auto simp: request_transaction_def Deferred_def Let_def monad_defs callback_def
      clamp_acq_timeout_def)

lemma request_transaction_enqueue:
  assumes i: "agent_inv s" and a: "none_or_nonneg acq" and e: "none_or_nonneg ex"
    and f: "transaction_id s \<noteq> None" and z: "clamp_acq_timeout acq s \<noteq> 0"
  shows "request_transaction acq ex r s =
     (Inr (next_deferred s),
      s\<lparr>next_deferred := Suc (next_deferred s),
        delayed_calls := (delayed_calls s)
          (next_call s \<mapsto> (clamp_acq_timeout acq s, AcquisitionTimeout (next_deferred s))),
        next_call := Suc (next_call s),
        pending_transactions := pending_transactions s @
          [(next_deferred s, next_call s, clamp_exp_timeout ex s, r)]\<rparr>)"
proof -
  have cfg: "config_ok s" using i by (simp add: agent_inv_def)
  have ca: "0 \<le> clamp_acq_timeout acq s" by (rule clamp_acq_nonneg[OF cfg a])
  show ?thesis
    using a e f z ca
    by (auto simp: request_transaction_def Deferred_def Let_def monad_defs callLater_def
      clamp_acq_timeout_def clamp_exp_timeout_def)
qed

lemma request_transaction_assert:
  "\<not> (none_or_nonneg acq \<and> none_or_nonneg ex) \<Longrightarrow>
   request_transaction acq ex r s = (Inl AssertionError, s)"
  by (auto simp: request_transaction_def)


lemma inv_parts:
  assumes "agent_inv s"
  shows "config_ok s" "token_ok s" "timer_ok s" "calls_ok s" "deferreds_ok s"
    "distinct (waiting s)" "\<forall>entry \<in> set (pending_transactions s). entry_ok s entry"
    "pending_transactions s \<noteq> [] \<longrightarrow> transaction_id s \<noteq> None"
  using assms by (simp_all add: agent_inv_def)

lemma inv_request_free:
  assumes i: "agent_inv s" and a: "none_or_nonneg acq" and e: "none_or_nonneg ex"
    and f: "transaction_id s = None"
  shows "agent_inv (snd (request_transaction acq ex r s))"
proof -
  note p = inv_parts[OF i] and n = inv_free_no_timer[OF i f]
  note fc = inv_fresh_call[OF i]
  show ?thesis
    unfolding request_transaction_free[OF i a e f] agent_inv_def snd_conv
  proof (intro conjI)
    show "calls_ok (s\<lparr>next_deferred := Suc (next_deferred s),
        entropy_pos := Suc (entropy_pos s),
        transaction_id := Some (str_uuid (entropy s (entropy_pos s) mod 2 ^ 128)),
        delayed_calls := (delayed_calls s)
          (next_call s \<mapsto> (clamp_exp_timeout (Some (clamp_exp_timeout ex s)) s, TransactionExpired)),
        next_call := Suc (next_call s),
        transaction_timeout_call := Some (next_call s),
        deferred_results := (deferred_results s)
          (next_deferred s \<mapsto> (OK, Some (str_uuid (entropy s (entropy_pos s) mod 2 ^ 128))))\<rparr>)"
      using p(4) n fc unfolding calls_ok_iff by (auto simp: less_Suc_eq)
  qed (use p n in \<open>auto simp: config_ok_def token_ok_def length_str_uuid timer_ok_iff
        deferreds_ok_iff waiting_def less_Suc_eq\<close>)
qed

lemma inv_request_locked_nowait:
  assumes i: "agent_inv s" and a: "none_or_nonneg acq" and e: "none_or_nonneg ex"
    and f: "transaction_id s \<noteq> None" and z: "clamp_acq_timeout acq s = 0"
  shows "agent_inv (snd (request_transaction acq ex r s))"
proof -
  note p = inv_parts[OF i]
  have w: "next_deferred s \<notin> set (waiting s)"
    using inv_entry[OF i] by (fastforce simp: waiting_def)
  show ?thesis
    unfolding request_transaction_locked_nowait[OF i a e f z] agent_inv_def snd_conv
  proof (intro conjI)
    show "\<forall>entry\<in>set (pending_transactions
              (s\<lparr>next_deferred := Suc (next_deferred s),
        deferred_results := (deferred_results s)(next_deferred s \<mapsto> (LOCKED_RESOURCE, None))\<rparr>)).
       entry_ok (s\<lparr>next_deferred := Suc (next_deferred s),
        deferred_results := (deferred_results s)(next_deferred s \<mapsto> (LOCKED_RESOURCE, None))\<rparr>) entry"
      using p(7) unfolding entries_ok_iff by (auto simp: less_Suc_eq)
    show "calls_ok (s\<lparr>next_deferred := Suc (next_deferred s),
        deferred_results := (deferred_results s)(next_deferred s \<mapsto> (LOCKED_RESOURCE, None))\<rparr>)"
      using p(4) unfolding calls_ok_iff by auto
    show "deferreds_ok (s\<lparr>next_deferred := Suc (next_deferred s),
        deferred_results := (deferred_results s)(next_deferred s \<mapsto> (LOCKED_RESOURCE, None))\<rparr>)"
      using p(5) unfolding deferreds_ok_iff by (auto simp: waiting_def less_Suc_eq)
    show "timer_ok (s\<lparr>next_deferred := Suc (next_deferred s),
        deferred_results := (deferred_results s)(next_deferred s \<mapsto> (LOCKED_RESOURCE, None))\<rparr>)"
      using p(3) unfolding timer_ok_iff by auto
  qed (use p f in \<open>auto simp: config_ok_def token_ok_def waiting_def\<close>)
qed

lemma inv_request_enqueue:
  assumes i: "agent_inv s" and a: "none_or_nonneg acq" and e: "none_or_nonneg ex"
    and f: "transaction_id s \<noteq> None" and z: "clamp_acq_timeout acq s \<noteq> 0"
  shows "agent_inv (snd (request_transaction acq ex r s))"
proof -
  note p = inv_parts[OF i]
  note fc = inv_fresh_call[OF i] and fd = inv_fresh_deferred[OF i]
  let ?s' = "s\<lparr>next_deferred := Suc (next_deferred s),
        delayed_calls := (delayed_calls s)
          (next_call s \<mapsto> (clamp_acq_timeout acq s, AcquisitionTimeout (next_deferred s))),
        next_call := Suc (next_call s),
        pending_transactions := pending_transactions s @
          [(next_deferred s, next_call s, clamp_exp_timeout ex s, r)]\<rparr>"
  have w: "next_deferred s \<notin> set (waiting s)"
    using inv_entry[OF i] by (fastforce simp: waiting_def)
  have ce: "0 \<le> clamp_exp_timeout ex s" by (rule clamp_exp_nonneg[OF p(1) e])
  have 4: "calls_ok ?s'"
    using p(4) fc unfolding calls_ok_iff by (auto simp: less_Suc_eq)
  have 5: "deferreds_ok ?s'"
    using p(5) unfolding deferreds_ok_iff by (auto simp: waiting_def less_Suc_eq)
  have 3: "timer_ok ?s'"
    using p(3) fc unfolding timer_ok_iff by auto
  have 7: "\<forall>entry\<in>set (pending_transactions ?s'). entry_ok ?s' entry"
    unfolding entries_ok_iff
  proof (intro allI impI)
    fix d c e' r'
    assume "(d, c, e', r') \<in> set (pending_transactions ?s')"
    then consider (old) "(d, c, e', r') \<in> set (pending_transactions s)"
      | (new) "d = next_deferred s" "c = next_call s" "e' = clamp_exp_timeout ex s"
      by auto
    then show "d < next_deferred ?s' \<and> deferred_results ?s' d = None \<and> 0 \<le> e' \<and>
        (\<exists>delay. delayed_calls ?s' c = Some (delay, AcquisitionTimeout d))"
    proof cases
      case old
      from inv_entry[OF i old] fc show ?thesis by (auto simp: less_Suc_eq)
    next
      case new
      then show ?thesis using fd ce by simp
    qed
  qed
  have 6: "distinct (waiting ?s')" using p(6) w by (simp add: waiting_def)
  have 1: "config_ok ?s'" using p(1) by (simp add: config_ok_def)
  have 2: "token_ok ?s'" using p(2) by (simp add: token_ok_def)
  have 8: "pending_transactions ?s' \<noteq> [] \<longrightarrow> transaction_id ?s' \<noteq> None" using f by simp
  show ?thesis
    unfolding request_transaction_enqueue[OF i a e f z] agent_inv_def snd_conv
    using 1 2 3 4 5 6 7 8 by blast
qed

lemma inv_request_transaction:
  assumes i: "agent_inv s"
  shows "agent_inv (snd (request_transaction acq ex r s))"
proof (cases "none_or_nonneg acq \<and> none_or_nonneg ex")
  case False
  then show ?thesis using i by (simp add: request_transaction_assert)
next
  case True
  then show ?thesis
    using inv_request_free[OF i] inv_request_locked_nowait[OF i] inv_request_enqueue[OF i]
    by (cases "transaction_id s = None"; cases "clamp_acq_timeout acq s = 0") auto
qed

lemma entry_ok_flag [simp]:
  "entry_ok (s\<lparr>in_protected_function := b\<rparr>) entry = entry_ok s entry"
  "entry_ok (s\<lparr>transaction_timed_out := b\<rparr>) entry = entry_ok s entry"
  by (cases entry; simp add: entry_ok_iff)+

lemma inv_flag [simp]:
  "agent_inv (s\<lparr>in_protected_function := b\<rparr>) = agent_inv s"
  "agent_inv (s\<lparr>transaction_timed_out := b\<rparr>) = agent_inv s"
  by (simp_all add: agent_inv_def inv_iffs config_ok_def token_ok_def waiting_def)

lemma distinct_map_remove1:
  "distinct (map f xs) \<Longrightarrow> distinct (map f (remove1 x xs))"
proof -
  assume d: "distinct (map f xs)"
  then have "distinct xs" by (simp add: distinct_map)
  then have "remove1 x xs = filter (\<lambda>y. x \<noteq> y) xs"
    by (simp add: distinct_remove1_removeAll removeAll_filter_not_eq)
  with d show ?thesis by (simp add: distinct_map_filter)
qed

lemma inv_timer_gone:
  assumes i: "agent_inv s" and t: "transaction_timeout_call s = Some h"
  shows "agent_inv (s\<lparr>delayed_calls := (delayed_calls s)(h := None), transaction_timeout_call := None\<rparr>)"
    (is "agent_inv ?s'")
proof -
  note p = inv_parts[OF i]
  have 4: "calls_ok ?s'"
    using p(4) t unfolding calls_ok_iff by auto
  have 7: "\<forall>entry\<in>set (pending_transactions ?s'). entry_ok ?s' entry"
    unfolding entries_ok_iff
  proof (intro allI impI)
    fix d c e r
    assume m: "(d, c, e, r) \<in> set (pending_transactions ?s')"
    then have m': "(d, c, e, r) \<in> set (pending_transactions s)" by simp
    from inv_entry[OF i m'] inv_entry_not_timer[OF i m'] t
    show "d < next_deferred ?s' \<and> deferred_results ?s' d = None \<and> 0 \<le> e \<and>
        (\<exists>delay. delayed_calls ?s' c = Some (delay, AcquisitionTimeout d))"
      by auto
  qed
  show ?thesis
    unfolding agent_inv_def
    using 4 7 p by (auto simp: config_ok_def token_ok_def timer_ok_iff deferreds_ok_iff waiting_def)
qed

lemma fire_not_pending:
  "delayed_calls s h = None \<Longrightarrow> fire h s = (Inr (), s)"
  by (simp add: fire_def)

lemma fire_expired:
  assumes i: "agent_inv s" and h: "delayed_calls s h = Some (delay, TransactionExpired)"
  shows "transaction_timeout_call s = Some h"
    and "fire h s =
      (if in_protected_function s
       then (Inr (), s\<lparr>delayed_calls := (delayed_calls s)(h := None),
                       transaction_timeout_call := None, transaction_timed_out := True\<rparr>)
       else and_then (end_transaction (transaction_id s)) (\<lambda>_. return_val ())
              (s\<lparr>delayed_calls := (delayed_calls s)(h := None), transaction_timeout_call := None\<rparr>))"
proof -
  show "transaction_timeout_call s = Some h"
    using inv_parts(4)[OF i] h unfolding calls_ok_iff by blast
  show "fire h s =
      (if in_protected_function s
       then (Inr (), s\<lparr>delayed_calls := (delayed_calls s)(h := None),
                       transaction_timeout_call := None, transaction_timed_out := True\<rparr>)
       else and_then (end_transaction (transaction_id s)) (\<lambda>_. return_val ())
              (s\<lparr>delayed_calls := (delayed_calls s)(h := None), transaction_timeout_call := None\<rparr>))"
    using h by (simp add: fire_def transaction_expired_def Let_def)
qed

lemma fire_acquisition:
  assumes i: "agent_inv s" and h: "delayed_calls s h = Some (delay, AcquisitionTimeout d)"
    and m: "(d, h, e, r) \<in> set (pending_transactions s)"
  shows "fire h s =
      (Inr (), s\<lparr>delayed_calls := (delayed_calls s)(h := None),
                 pending_transactions := remove1 (d, h, e, r) (pending_transactions s),
                 deferred_results := (deferred_results s)(d \<mapsto> (TIMEOUT, None))\<rparr>)"
proof -
  let ?s1 = "s\<lparr>delayed_calls := (delayed_calls s)(h := None)\<rparr>"
  have "acquisition_timeout d ?s1 =
     (Inr (), ?s1\<lparr>pending_transactions := remove1 (d, h, e, r) (pending_transactions ?s1),
               deferred_results := (deferred_results ?s1)(d \<mapsto> (TIMEOUT, None))\<rparr>)"
    using inv_parts(6)[OF i] m inv_entry[OF i m]
    by (intro acquisition_timeout_entry) (auto simp: waiting_def)
  then show ?thesis using h by (simp add: fire_def Let_def)
qed

lemma inv_acquisition_entry:
  assumes i: "agent_inv s" and h: "delayed_calls s h = Some (delay, AcquisitionTimeout d)"
  shows "\<exists>e r. (d, h, e, r) \<in> set (pending_transactions s)"
  using inv_parts(4)[OF i] h unfolding calls_ok_iff by blast

lemma inv_entry_unique:
  assumes i: "agent_inv s" and m: "(d, c, e, r) \<in> set (pending_transactions s)"
    and m': "(d', c', e', r') \<in> set (pending_transactions s)"
  shows "d = d' \<or> c = c' \<Longrightarrow> (d, c, e, r) = (d', c', e', r')"
proof -
  assume dc: "d = d' \<or> c = c'"
  have dd: "d = d'" using dc inv_entry[OF i m] inv_entry[OF i m'] by auto
  have inj: "inj_on fst (set (pending_transactions s))"
    using inv_parts(6)[OF i] by (simp add: waiting_def distinct_map)
  from inj_onD[OF inj _ m m'] dd show ?thesis by simp
qed

lemma inv_fire_acquisition:
  assumes i: "agent_inv s" and h: "delayed_calls s h = Some (delay, AcquisitionTimeout d)"
  shows "agent_inv (snd (fire h s))"
proof -
  from inv_acquisition_entry[OF i h] obtain e r where
    m: "(d, h, e, r) \<in> set (pending_transactions s)" by blast
  note p = inv_parts[OF i]
  let ?ps = "remove1 (d, h, e, r) (pending_transactions s)"
  let ?s' = "s\<lparr>delayed_calls := (delayed_calls s)(h := None),
                 pending_transactions := ?ps,
                 deferred_results := (deferred_results s)(d \<mapsto> (TIMEOUT, None))\<rparr>"
  have dps: "distinct (pending_transactions s)"
    using p(6) by (simp add: waiting_def distinct_map)
  have sps: "set ?ps = set (pending_transactions s) - {(d, h, e, r)}"
    using dps by simp
  have other: "\<And>d' c' e' r'. (d', c', e', r') \<in> set ?ps \<Longrightarrow>
      (d', c', e', r') \<in> set (pending_transactions s) \<and> d' \<noteq> d \<and> c' \<noteq> h"
  proof -
    fix d' c' e' r'
    assume a: "(d', c', e', r') \<in> set ?ps"
    then have b: "(d', c', e', r') \<in> set (pending_transactions s)" "(d', c', e', r') \<noteq> (d, h, e, r)"
      using sps by auto
    with inv_entry_unique[OF i b(1) m] show
      "(d', c', e', r') \<in> set (pending_transactions s) \<and> d' \<noteq> d \<and> c' \<noteq> h" by blast
  qed
  have 1: "config_ok ?s'" using p(1) by (simp add: config_ok_def)
  have 2: "token_ok ?s'" using p(2) by (simp add: token_ok_def)
  have nt: "transaction_timeout_call s \<noteq> Some h" by (rule inv_entry_not_timer[OF i m])
  have 3: "timer_ok ?s'" using p(3) nt unfolding timer_ok_iff by auto
  have 4: "calls_ok ?s'"
    unfolding calls_ok_iff
  proof (intro allI conjI impI)
    fix c dl
    assume a: "delayed_calls ?s' c = Some (dl, TransactionExpired)"
    then have "delayed_calls s c = Some (dl, TransactionExpired)" by (auto split: if_splits)
    with p(4)[unfolded calls_ok_iff] show "c < next_call ?s'" "transaction_timeout_call ?s' = Some c"
      by auto
  next
    fix c dl d'
    assume a: "delayed_calls ?s' c = Some (dl, AcquisitionTimeout d')"
    then have b: "delayed_calls s c = Some (dl, AcquisitionTimeout d')" and ch: "c \<noteq> h"
      by (auto split: if_splits)
    from p(4)[unfolded calls_ok_iff] b obtain e' r' where
      cl: "c < next_call s" and m': "(d', c, e', r') \<in> set (pending_transactions s)" by blast
    show "c < next_call ?s'" using cl by simp
    have "(d', c, e', r') \<in> set ?ps" using sps m' ch by auto
    then show "\<exists>e r. (d', c, e, r) \<in> set (pending_transactions ?s')" by auto
  qed
  have 5: "deferreds_ok ?s'"
    unfolding deferreds_ok_iff
  proof (intro allI conjI impI)
    fix d'
    assume lt: "d' < next_deferred ?s'"
    show "d' \<in> set (waiting ?s') \<or> deferred_results ?s' d' \<noteq> None"
    proof (cases "d' = d")
      case True
      then show ?thesis by simp
    next
      case False
      from p(5)[unfolded deferreds_ok_iff] lt
      have "d' \<in> set (waiting s) \<or> deferred_results s d' \<noteq> None" by simp
      then show ?thesis
      proof
        assume "d' \<in> set (waiting s)"
        then obtain c' e' r' where "(d', c', e', r') \<in> set (pending_transactions s)"
          by (auto simp: waiting_def)
        with False sps have "(d', c', e', r') \<in> set ?ps" by auto
        then have "d' \<in> set (waiting ?s')" by (force simp: waiting_def)
        then show ?thesis ..
      next
        assume "deferred_results s d' \<noteq> None"
        then show ?thesis using False by simp
      qed
    qed
  next
    fix d'
    assume "\<not> d' < next_deferred ?s'"
    with p(5)[unfolded deferreds_ok_iff] inv_entry[OF i m]
    show "deferred_results ?s' d' = None" by auto
  qed
  have 6: "distinct (waiting ?s')"
    using p(6) by (simp add: waiting_def distinct_map_remove1)
  have 7: "\<forall>entry\<in>set (pending_transactions ?s'). entry_ok ?s' entry"
    unfolding entries_ok_iff
  proof (intro allI impI)
    fix d' c' e' r'
    assume "(d', c', e', r') \<in> set (pending_transactions ?s')"
    then have "(d', c', e', r') \<in> set ?ps" by simp
    from other[OF this] inv_entry[OF i, of d' c' e' r']
    show "d' < next_deferred ?s' \<and> deferred_results ?s' d' = None \<and> 0 \<le> e' \<and>
        (\<exists>delay. delayed_calls ?s' c' = Some (delay, AcquisitionTimeout d'))"
      by auto
  qed
  have 8: "pending_transactions ?s' \<noteq> [] \<longrightarrow> transaction_id ?s' \<noteq> None"
    using p(8) sps by auto
  show ?thesis
    unfolding fire_acquisition[OF i h m] agent_inv_def snd_conv
    using 1 2 3 4 5 6 7 8 by blast
qed

lemma inv_fire:
  assumes i: "agent_inv s"
  shows "agent_inv (snd (fire h s))"
proof (cases "delayed_calls s h")
  case None
  then show ?thesis using i by (simp add: fire_not_pending)
next
  case (Some x)
  obtain delay f where x: "x = (delay, f)" by (cases x)
  show ?thesis
  proof (cases f)
    case TransactionExpired
    with Some x have h: "delayed_calls s h = Some (delay, TransactionExpired)" by simp
    note fe = fire_expired[OF i h]
    have i2: "agent_inv (s\<lparr>delayed_calls := (delayed_calls s)(h := None), transaction_timeout_call := None\<rparr>)"
      by (rule inv_timer_gone[OF i fe(1)])
    show ?thesis
    proof (cases "in_protected_function s")
      case True
      then show ?thesis using i2 by (simp add: fe(2))
    next
      case False
      have "snd (fire h s) = snd (end_transaction (transaction_id s)
          (s\<lparr>delayed_calls := (delayed_calls s)(h := None), transaction_timeout_call := None\<rparr>))"
        using False by (simp add: fe(2) monad_defs split: prod.splits sum.splits)
      then show ?thesis using inv_end_transaction[OF i2] by simp
    qed
  next
    case (AcquisitionTimeout d)
    with Some x have "delayed_calls s h = Some (delay, AcquisitionTimeout d)" by simp
    then show ?thesis by (rule inv_fire_acquisition[OF i])
  qed
qed

lemma inv_plc_init: "agent_inv (plc_init rnd)"
  by (simp add: agent_inv_def plc_init_def config_ok_def token_ok_def timer_ok_def calls_ok_def
      deferreds_ok_def waiting_def)

lemma inv_step: "agent_inv s \<Longrightarrow> agent_inv (step e s)"
  by (cases e) (simp_all add: step_def inv_request_transaction inv_end_transaction inv_fire)

lemma inv_run: "agent_inv s \<Longrightarrow> agent_inv (run es s)"
  by (induction es arbitrary: s) (simp_all add: inv_step)

section \<open>The effect of one event on the queue and on the Deferreds\<close>

lemma end_transaction_effect:
  assumes i: "agent_inv s" and t: "transaction_id s = Some t"
  obtains (queue_empty) "pending_transactions s = []"
      "deferred_results (snd (end_transaction (Some t) s)) = deferred_results s"
      "pending_transactions (snd (end_transaction (Some t) s)) = []"
      "next_deferred (snd (end_transaction (Some t) s)) = next_deferred s"
      "transaction_id (snd (end_transaction (Some t) s)) = None"
    | (head_granted) d c e r rest where "pending_transactions s = (d, c, e, r) # rest"
      "pending_transactions (snd (end_transaction (Some t) s)) = rest"
      "deferred_results (snd (end_transaction (Some t) s)) =
         (deferred_results s)(d \<mapsto> (OK, transaction_id (snd (end_transaction (Some t) s))))"
      "transaction_id (snd (end_transaction (Some t) s)) \<noteq> None"
      "next_deferred (snd (end_transaction (Some t) s)) = next_deferred s"
proof (cases "pending_transactions s")
  case Nil
  show ?thesis
    by (rule queue_empty) (simp_all add: end_transaction_match_empty[OF i t Nil] Nil)
next
  case (Cons entry rest)
  obtain d c e r where en: "entry = (d, c, e, r)" by (cases entry) auto
  have p: "pending_transactions s = (d, c, e, r) # rest" using Cons en by simp
  show ?thesis
    by (rule head_granted[OF p]) (simp_all add: end_transaction_match_head[OF i t p])
qed

lemma step_cases [consumes 1, case_names unchanged immediate queued granted timed_out]:
  assumes i: "agent_inv s"
  obtains
    (unchanged) "deferred_results (step ev s) = deferred_results s"
      "pending_transactions (step ev s) = pending_transactions s"
      "next_deferred (step ev s) = next_deferred s"
  | (immediate) acq ex r v where "ev = RequestTransaction acq ex r"
      "deferred_results (step ev s) = (deferred_results s)(next_deferred s \<mapsto> v)"
      "pending_transactions (step ev s) = pending_transactions s"
      "next_deferred (step ev s) = Suc (next_deferred s)"
      "v = (OK, transaction_id (step ev s)) \<and> transaction_id s = None \<and>
         transaction_id (step ev s) \<noteq> None \<or>
       v = (LOCKED_RESOURCE, None) \<and> transaction_id s \<noteq> None \<and>
         transaction_id (step ev s) = transaction_id s \<and> clamp_acq_timeout acq s = 0"
  | (queued) acq ex r where "ev = RequestTransaction acq ex r"
      "deferred_results (step ev s) = deferred_results s"
      "pending_transactions (step ev s) =
         pending_transactions s @ [(next_deferred s, next_call s, clamp_exp_timeout ex s, r)]"
      "next_deferred (step ev s) = Suc (next_deferred s)"
      "transaction_id s \<noteq> None" "clamp_acq_timeout acq s \<noteq> 0"
  | (granted) d c e r rest where "pending_transactions s = (d, c, e, r) # rest"
      "pending_transactions (step ev s) = rest"
      "deferred_results (step ev s) = (deferred_results s)(d \<mapsto> (OK, transaction_id (step ev s)))"
      "transaction_id (step ev s) \<noteq> None"
      "next_deferred (step ev s) = next_deferred s"
      "(\<exists>t. ev = EndTransaction t \<and> transaction_id s = Some t) \<or> is_expiration ev s"
  | (timed_out) d c e r where "ev = TimerFires c"
      "(d, c, e, r) \<in> set (pending_transactions s)"
      "pending_transactions (step ev s) = remove1 (d, c, e, r) (pending_transactions s)"
      "deferred_results (step ev s) = (deferred_results s)(d \<mapsto> (TIMEOUT, None))"
      "next_deferred (step ev s) = next_deferred s"
      "transaction_id (step ev s) = transaction_id s"
proof (cases ev)
  case (RequestTransaction acq ex r)
  show ?thesis
  proof (cases "none_or_nonneg acq \<and> none_or_nonneg ex")
    case False
    show ?thesis
      by (rule unchanged) (simp_all add: RequestTransaction step_def request_transaction_assert[OF False])
  next
    case True
    then have a: "none_or_nonneg acq" and e: "none_or_nonneg ex" by simp_all
    show ?thesis
    proof (cases "transaction_id s = None")
      case f: True
      show ?thesis
        by (rule immediate[OF RequestTransaction,
              of "(OK, Some (str_uuid (entropy s (entropy_pos s) mod 2 ^ 128)))"])
          (simp_all add: RequestTransaction step_def request_transaction_free[OF i a e f] f)
    next
      case f: False
      show ?thesis
      proof (cases "clamp_acq_timeout acq s = 0")
        case z: True
        show ?thesis
          by (rule immediate[OF RequestTransaction, of "(LOCKED_RESOURCE, None)"])
            (use f z in \<open>simp_all add: RequestTransaction step_def
               request_transaction_locked_nowait[OF i a e f z]\<close>)
      next
        case z: False
        show ?thesis
          by (rule queued[OF RequestTransaction])
            (use f z in \<open>simp_all add: RequestTransaction step_def
               request_transaction_enqueue[OF i a e f z]\<close>)
      qed
    qed
  qed
next
  case (EndTransaction t)
  show ?thesis
  proof (cases "transaction_id s = Some t")
    case False
    show ?thesis
      by (rule unchanged) (simp_all add: EndTransaction step_def end_transaction_other[OF False])
  next
    case True
    from i True show ?thesis
    proof (cases rule: end_transaction_effect)
      case queue_empty
      with queue_empty show ?thesis by (intro unchanged) (simp_all add: EndTransaction step_def)
    next
      case (head_granted d c e r rest)
      show ?thesis
        by (rule granted[OF head_granted(1)])
          (use head_granted True in \<open>simp_all add: EndTransaction step_def\<close>)
    qed
  qed
next
  case (TimerFires h)
  show ?thesis
  proof (cases "delayed_calls s h")
    case None
    show ?thesis
      by (rule unchanged) (simp_all add: TimerFires step_def fire_not_pending[OF None])
  next
    case (Some x)
    obtain delay f where x: "x = (delay, f)" by (cases x)
    show ?thesis
    proof (cases f)
      case (AcquisitionTimeout d)
      with Some x have h: "delayed_calls s h = Some (delay, AcquisitionTimeout d)" by simp
      from inv_acquisition_entry[OF i h] obtain e r where
        m: "(d, h, e, r) \<in> set (pending_transactions s)" by blast
      show ?thesis
        by (rule timed_out[OF TimerFires m])
          (simp_all add: TimerFires step_def fire_acquisition[OF i h m])
    next
      case TransactionExpired
      with Some x have h: "delayed_calls s h = Some (delay, TransactionExpired)" by simp
      note fe = fire_expired[OF i h]
      let ?s2 = "s\<lparr>delayed_calls := (delayed_calls s)(h := None), transaction_timeout_call := None\<rparr>"
      have i2: "agent_inv ?s2" by (rule inv_timer_gone[OF i fe(1)])
      show ?thesis
      proof (cases "in_protected_function s")
        case True
        show ?thesis
          by (rule unchanged) (simp_all add: TimerFires step_def fe(2) True)
      next
        case False
        obtain t where t: "transaction_id s = Some t"
          using inv_parts(3)[OF i] fe(1) by (auto simp: timer_ok_iff)
        have st: "step ev s = snd (end_transaction (Some t) ?s2)"
          using False t by (simp add: TimerFires step_def fe(2) monad_defs split: prod.splits sum.splits)
        have t2: "transaction_id ?s2 = Some t" using t by simp
        have ex: "is_expiration ev s" using fe(1) by (simp add: is_expiration_def TimerFires)
        from i2 t2 show ?thesis
        proof (cases rule: end_transaction_effect)
          case queue_empty
          with queue_empty show ?thesis by (intro unchanged) (simp_all add: st)
        next
          case (head_granted d c e r rest)
          have p: "pending_transactions s = (d, c, e, r) # rest" using head_granted(1) by simp
          show ?thesis
            by (rule granted[OF p]) (use head_granted ex in \<open>simp_all add: st\<close>)
        qed
      qed
    qed
  qed
qed

lemma waiting_iff_unresolved:
  assumes i: "agent_inv s" and d: "d < next_deferred s"
  shows "(d \<in> set (waiting s)) = (deferred_results s d = None)"
proof
  assume "d \<in> set (waiting s)"
  then obtain c e r where "(d, c, e, r) \<in> set (pending_transactions s)"
    by (auto simp: waiting_def)
  from inv_entry[OF i this] show "deferred_results s d = None" by simp
next
  assume "deferred_results s d = None"
  with inv_parts(5)[OF i] d show "d \<in> set (waiting s)"
    by (auto simp: deferreds_ok_iff)
qed

lemma waiting_unresolved:
  assumes i: "agent_inv s" and m: "d \<in> set (waiting s)"
  shows "deferred_results s d = None"
proof -
  from m obtain c e r where "(d, c, e, r) \<in> set (pending_transactions s)"
    by (auto simp: waiting_def)
  from inv_entry[OF i this] show ?thesis by simp
qed

lemma resolved_stays:
  assumes i: "agent_inv s" and v: "deferred_results s d = Some v"
  shows "deferred_results (step ev s) d = Some v"
  using i
proof (cases rule: step_cases[where ev = ev])
  case unchanged
  then show ?thesis using v by simp
next
  case (immediate acq ex r v')
  have "d \<noteq> next_deferred s" using inv_fresh_deferred[OF i] v by auto
  then show ?thesis using immediate(2) v by simp
next
  case (queued acq ex r)
  then show ?thesis using v by simp
next
  case (granted d' c e r rest)
  have "(d', c, e, r) \<in> set (pending_transactions s)" using granted(1) by simp
  from inv_entry[OF i this] have "d \<noteq> d'" using v by auto
  then show ?thesis using granted(3) v by simp
next
  case (timed_out d' c e r)
  from inv_entry[OF i timed_out(2)] have "d \<noteq> d'" using v by auto
  then show ?thesis using timed_out(4) v by simp
qed

lemma grant_is_current:
  assumes i: "agent_inv s" and n: "deferred_results s d = None"
    and g: "deferred_results (step ev s) d = Some (OK, tok)"
  shows "tok = transaction_id (step ev s) \<and> tok \<noteq> None"
  using i
proof (cases rule: step_cases[where ev = ev])
  case unchanged
  then show ?thesis using n g by simp
next
  case (immediate acq ex r v')
  have dd: "d = next_deferred s" using immediate(2) n g by (auto split: if_splits)
  have "v' = (OK, tok)" using immediate(2) g dd by simp
  with immediate(5) show ?thesis by auto
next
  case (queued acq ex r)
  then show ?thesis using n g by simp
next
  case (granted d' c e r rest)
  have dd: "d = d'" using granted(3) n g by (auto split: if_splits)
  have "tok = transaction_id (step ev s)" using granted(3) g dd by simp
  then show ?thesis using granted(4) by simp
next
  case (timed_out d' c e r)
  then show ?thesis using n g by (auto split: if_splits)
qed

lemma one_resolution_per_step:
  assumes i: "agent_inv s"
    and 1: "deferred_results s d = None" "deferred_results (step ev s) d \<noteq> None"
    and 2: "deferred_results s d' = None" "deferred_results (step ev s) d' \<noteq> None"
  shows "d = d'"
  using i
proof (cases rule: step_cases[where ev = ev])
  case unchanged
  then show ?thesis using 1 by simp
next
  case (immediate acq ex r v')
  then show ?thesis using 1 2 by (auto split: if_splits)
next
  case (queued acq ex r)
  then show ?thesis using 1 by simp
next
  case (granted d'' c e r rest)
  then show ?thesis using 1 2 by (auto split: if_splits)
next
  case (timed_out d'' c e r)
  then show ?thesis using 1 2 by (auto split: if_splits)
qed

lemma distinct_waiting_entry:
  assumes i: "agent_inv s" and m: "(d, c, e, r) \<in> set (pending_transactions s)"
  shows "d \<notin> set (waiting (s\<lparr>pending_transactions := remove1 (d, c, e, r) (pending_transactions s)\<rparr>))"
proof
  assume "d \<in> set (waiting (s\<lparr>pending_transactions := remove1 (d, c, e, r) (pending_transactions s)\<rparr>))"
  then obtain c' e' r' where a: "(d, c', e', r') \<in> set (remove1 (d, c, e, r) (pending_transactions s))"
    by (auto simp: waiting_def)
  have dps: "distinct (pending_transactions s)"
    using inv_parts(6)[OF i] by (simp add: waiting_def distinct_map)
  from a dps have b: "(d, c', e', r') \<in> set (pending_transactions s)" "(d, c', e', r') \<noteq> (d, c, e, r)"
    by auto
  from inv_entry_unique[OF i b(1) m] b(2) show False by simp
qed

lemma waiting_step:
  assumes i: "agent_inv s" and m: "(d, c, e, r) \<in> set (pending_transactions s)"
  shows "d \<in> set (waiting (step ev s)) \<and> deferred_results (step ev s) d = None \<or>
     ev = TimerFires c \<and> deferred_results (step ev s) d = Some (TIMEOUT, None) \<and>
       d \<notin> set (waiting (step ev s)) \<or>
     ((\<exists>t. ev = EndTransaction t \<and> transaction_id s = Some t) \<or> is_expiration ev s) \<and>
       hd (pending_transactions s) = (d, c, e, r) \<and>
       deferred_results (step ev s) d = Some (OK, transaction_id (step ev s)) \<and>
       transaction_id (step ev s) \<noteq> None \<and> d \<notin> set (waiting (step ev s))"
proof -
  note un = inv_entry[OF i m]
  have w: "d \<in> set (waiting s)" using m by (force simp: waiting_def)
  have ds: "distinct (waiting s)" by (rule inv_parts(6)[OF i])
  from i show ?thesis
  proof (cases rule: step_cases[where ev = ev])
    case unchanged
    then show ?thesis using un w by (simp add: waiting_def)
  next
    case (immediate acq ex r' v')
    then show ?thesis using un w by (auto simp: waiting_def)
  next
    case (queued acq ex r')
    then show ?thesis using un w by (simp add: waiting_def)
  next
    case (granted d' c' e' r'' rest)
    show ?thesis
    proof (cases "d' = d")
      case True
      have "(d', c', e', r'') \<in> set (pending_transactions s)" using granted(1) by simp
      from inv_entry_unique[OF i this m] True have eq: "(d', c', e', r'') = (d, c, e, r)" by simp
      have "d \<notin> set (waiting (step ev s))"
        using ds granted(1,2) True by (auto simp: waiting_def)
      then show ?thesis using granted eq by auto
    next
      case False
      then have "(d, c, e, r) \<in> set rest" using m granted(1) by auto
      then have "d \<in> set (waiting (step ev s))" using granted(2) by (force simp: waiting_def)
      then show ?thesis using granted(3) False un by simp
    qed
  next
    case (timed_out d' c' e' r'')
    show ?thesis
    proof (cases "d' = d")
      case True
      from inv_entry_unique[OF i timed_out(2) m] True
      have eq: "(d', c', e', r'') = (d, c, e, r)" by simp
      have "d \<notin> set (waiting (step ev s))"
        using distinct_waiting_entry[OF i m] timed_out(3) eq by (simp add: waiting_def)
      then show ?thesis using timed_out eq by auto
    next
      case False
      have dps: "distinct (pending_transactions s)"
        using ds by (simp add: waiting_def distinct_map)
      have "(d, c, e, r) \<in> set (remove1 (d', c', e', r'') (pending_transactions s))"
        using dps m False by auto
      then have "d \<in> set (waiting (step ev s))" using timed_out(3) by (force simp: waiting_def)
      then show ?thesis using timed_out(4) False un by simp
    qed
  qed
qed

lemma timer_resolves:
  assumes i: "agent_inv s" and m: "(d, c, e, r) \<in> set (pending_transactions s)"
  shows "deferred_results (step (TimerFires c) s) d = Some (TIMEOUT, None) \<and>
     d \<notin> set (waiting (step (TimerFires c) s)) \<and>
     transaction_id (step (TimerFires c) s) = transaction_id s"
proof -
  from inv_entry[OF i m] obtain delay where
    h: "delayed_calls s c = Some (delay, AcquisitionTimeout d)" by auto
  show ?thesis
    using distinct_waiting_entry[OF i m]
    by (simp add: step_def fire_acquisition[OF i h m] waiting_def)
qed

lemma head_granted_on_end:
  assumes i: "agent_inv s" and p: "pending_transactions s = (d, c, e, r) # rest"
    and t: "transaction_id s = Some t"
  shows "deferred_results (step (EndTransaction t) s) d =
       Some (OK, transaction_id (step (EndTransaction t) s)) \<and>
     transaction_id (step (EndTransaction t) s) \<noteq> None \<and>
     pending_transactions (step (EndTransaction t) s) = rest"
  by (simp add: step_def end_transaction_match_head[OF i t p])

section \<open>Claims about the transaction manager\<close>

text \<open>
  Claim C1. Take the state \<open>s\<close> after any sequence of requests, ends and timer firings from
  the agent as \<open>plc_init\<close> leaves it, and any next event \<open>ev\<close> (the claim leaves the firing
  of an expiration timer out; the theorem covers it too, as the third way a waiter is
  granted). The current token is the one field \<open>transaction_id\<close>, and requests wait only
  while it is set. A Deferred that the event fires with OK carries the token that is current
  after the event, and an event fires at most one Deferred: at most one grant is outstanding.
  The waiting Deferreds are pairwise different; a Deferred that was constructed is waiting
  exactly if it has not fired yet, and one that has fired keeps its value over every event
  (it never fires again). A waiting request has its acquisition timer pending in the reactor.
  Over the event it either keeps waiting, unfired; or the event is the firing of its own
  acquisition timer, it is fired with (TIMEOUT, None) and leaves the queue; or it is the head
  of the queue, the event ends the current transaction, and it is fired with OK and the new
  current token and leaves the queue. The firing of its timer does resolve it with
  (TIMEOUT, None), and at the head of the queue the end of the current transaction does
  grant it.
\<close>

theorem pending_acquisitions_resolved_once:
  assumes r: "s = run evs (plc_init rnd)"
  shows "distinct (waiting s) \<and>
    (pending_transactions s \<noteq> [] \<longrightarrow> transaction_id s \<noteq> None) \<and>
    (\<forall>d. d < next_deferred s \<longrightarrow> (d \<in> set (waiting s)) = (deferred_results s d = None)) \<and>
    (\<forall>d v. deferred_results s d = Some v \<longrightarrow> deferred_results (step ev s) d = Some v) \<and>
    (\<forall>d tok. deferred_results s d = None \<and> deferred_results (step ev s) d = Some (OK, tok) \<longrightarrow>
       tok = transaction_id (step ev s) \<and> tok \<noteq> None) \<and>
    (\<forall>d d'. deferred_results s d = None \<and> deferred_results (step ev s) d \<noteq> None \<and>
       deferred_results s d' = None \<and> deferred_results (step ev s) d' \<noteq> None \<longrightarrow> d = d') \<and>
    (\<forall>d c e q. (d, c, e, q) \<in> set (pending_transactions s) \<longrightarrow>
       (\<exists>delay. delayed_calls s c = Some (delay, AcquisitionTimeout d)) \<and>
       (d \<in> set (waiting (step ev s)) \<and> deferred_results (step ev s) d = None \<or>
        ev = TimerFires c \<and> deferred_results (step ev s) d = Some (TIMEOUT, None) \<and>
          d \<notin> set (waiting (step ev s)) \<or>
        ((\<exists>t. ev = EndTransaction t \<and> transaction_id s = Some t) \<or> is_expiration ev s) \<and>
          hd (pending_transactions s) = (d, c, e, q) \<and>
          deferred_results (step ev s) d = Some (OK, transaction_id (step ev s)) \<and>
          transaction_id (step ev s) \<noteq> None \<and> d \<notin> set (waiting (step ev s))) \<and>
       deferred_results (step (TimerFires c) s) d = Some (TIMEOUT, None) \<and>
       d \<notin> set (waiting (step (TimerFires c) s)) \<and>
       (\<forall>t rest. pending_transactions s = (d, c, e, q) # rest \<and> transaction_id s = Some t \<longrightarrow>
          deferred_results (step (EndTransaction t) s) d =
            Some (OK, transaction_id (step (EndTransaction t) s)) \<and>
          transaction_id (step (EndTransaction t) s) \<noteq> None \<and>
          pending_transactions (step (EndTransaction t) s) = rest))"
proof -
  have i: "agent_inv s" unfolding r by (rule inv_run[OF inv_plc_init])
  have 1: "distinct (waiting s)" by (rule inv_parts(6)[OF i])
  have 2: "pending_transactions s \<noteq> [] \<longrightarrow> transaction_id s \<noteq> None" by (rule inv_parts(8)[OF i])
  have 3: "\<forall>d. d < next_deferred s \<longrightarrow> (d \<in> set (waiting s)) = (deferred_results s d = None)"
    using waiting_iff_unresolved[OF i] by blast
  have 4: "\<forall>d v. deferred_results s d = Some v \<longrightarrow> deferred_results (step ev s) d = Some v"
    using resolved_stays[OF i] by blast
  have 5: "\<forall>d tok. deferred_results s d = None \<and> deferred_results (step ev s) d = Some (OK, tok) \<longrightarrow>
       tok = transaction_id (step ev s) \<and> tok \<noteq> None"
    using grant_is_current[OF i] by blast
  have 6: "\<forall>d d'. deferred_results s d = None \<and> deferred_results (step ev s) d \<noteq> None \<and>
       deferred_results s d' = None \<and> deferred_results (step ev s) d' \<noteq> None \<longrightarrow> d = d'"
    using one_resolution_per_step[OF i] by blast
  have 7: "\<forall>d c e q. (d, c, e, q) \<in> set (pending_transactions s) \<longrightarrow>
       (\<exists>delay. delayed_calls s c = Some (delay, AcquisitionTimeout d)) \<and>
       (d \<in> set (waiting (step ev s)) \<and> deferred_results (step ev s) d = None \<or>
        ev = TimerFires c \<and> deferred_results (step ev s) d = Some (TIMEOUT, None) \<and>
          d \<notin> set (waiting (step ev s)) \<or>
        ((\<exists>t. ev = EndTransaction t \<and> transaction_id s = Some t) \<or> is_expiration ev s) \<and>
          hd (pending_transactions s) = (d, c, e, q) \<and>
          deferred_results (step ev s) d = Some (OK, transaction_id (step ev s)) \<and>
          transaction_id (step ev s) \<noteq> None \<and> d \<notin> set (waiting (step ev s))) \<and>
       deferred_results (step (TimerFires c) s) d = Some (TIMEOUT, None) \<and>
       d \<notin> set (waiting (step (TimerFires c) s)) \<and>
       (\<forall>t rest. pending_transactions s = (d, c, e, q) # rest \<and> transaction_id s = Some t \<longrightarrow>
          deferred_results (step (EndTransaction t) s) d =
            Some (OK, transaction_id (step (EndTransaction t) s)) \<and>
          transaction_id (step (EndTransaction t) s) \<noteq> None \<and>
          pending_transactions (step (EndTransaction t) s) = rest)"
  proof (intro allI impI)
    fix d c e q
    assume m: "(d, c, e, q) \<in> set (pending_transactions s)"
    have a: "\<exists>delay. delayed_calls s c = Some (delay, AcquisitionTimeout d)"
      using inv_entry[OF i m] by simp
    note b = waiting_step[OF i m, of ev]
    note c = timer_resolves[OF i m]
    have d: "\<forall>t rest. pending_transactions s = (d, c, e, q) # rest \<and> transaction_id s = Some t \<longrightarrow>
          deferred_results (step (EndTransaction t) s) d =
            Some (OK, transaction_id (step (EndTransaction t) s)) \<and>
          transaction_id (step (EndTransaction t) s) \<noteq> None \<and>
          pending_transactions (step (EndTransaction t) s) = rest"
      using head_granted_on_end[OF i] by blast
    from a b c d show "(\<exists>delay. delayed_calls s c = Some (delay, AcquisitionTimeout d)) \<and>
       (d \<in> set (waiting (step ev s)) \<and> deferred_results (step ev s) d = None \<or>
        ev = TimerFires c \<and> deferred_results (step ev s) d = Some (TIMEOUT, None) \<and>
          d \<notin> set (waiting (step ev s)) \<or>
        ((\<exists>t. ev = EndTransaction t \<and> transaction_id s = Some t) \<or> is_expiration ev s) \<and>
          hd (pending_transactions s) = (d, c, e, q) \<and>
          deferred_results (step ev s) d = Some (OK, transaction_id (step ev s)) \<and>
          transaction_id (step ev s) \<noteq> None \<and> d \<notin> set (waiting (step ev s))) \<and>
       deferred_results (step (TimerFires c) s) d = Some (TIMEOUT, None) \<and>
       d \<notin> set (waiting (step (TimerFires c) s)) \<and>
       (\<forall>t rest. pending_transactions s = (d, c, e, q) # rest \<and> transaction_id s = Some t \<longrightarrow>
          deferred_results (step (EndTransaction t) s) d =
            Some (OK, transaction_id (step (EndTransaction t) s)) \<and>
          transaction_id (step (EndTransaction t) s) \<noteq> None \<and>
          pending_transactions (step (EndTransaction t) s) = rest)"
      by blast
  qed
  from 1 2 3 4 5 6 7 show ?thesis by blast
qed

lemma two_requests:
  "run [RequestTransaction None None ''a'', RequestTransaction (Some 5) None ''b''] (plc_init (\<lambda>n. n)) =
     (plc_init (\<lambda>n. n))\<lparr>transaction_id := Some (str_uuid 0), transaction_timeout_call := Some 0,
       pending_transactions := [(1, 1, 300, ''b'')],
       delayed_calls := [0 \<mapsto> (300, TransactionExpired), 1 \<mapsto> (5, AcquisitionTimeout 1)],
       next_call := 2, deferred_results := [0 \<mapsto> (OK, Some (str_uuid 0))], next_deferred := 2,
       entropy_pos := 1\<rparr>"
  by (simp add: step_def tm_defs monad_defs plc_init_def Let_def)

theorem pending_acquisitions_resolved_once_witness:
  "pending_transactions
     (run [RequestTransaction None None ''a'', RequestTransaction (Some 5) None ''b'']
        (plc_init (\<lambda>n. n))) = [(1, 1, 300, ''b'')] \<and>
   deferred_results
     (step (TimerFires 1)
        (run [RequestTransaction None None ''a'', RequestTransaction (Some 5) None ''b'']
           (plc_init (\<lambda>n. n)))) 1 = Some (TIMEOUT, None) \<and>
   deferred_results
     (step (EndTransaction (str_uuid 0))
        (run [RequestTransaction None None ''a'', RequestTransaction (Some 5) None ''b'']
           (plc_init (\<lambda>n. n)))) 1 =
     Some (OK, transaction_id (step (EndTransaction (str_uuid 0))
        (run [RequestTransaction None None ''a'', RequestTransaction (Some 5) None ''b'']
           (plc_init (\<lambda>n. n)))))"
proof -
  let ?s = "run [RequestTransaction None None ''a'', RequestTransaction (Some 5) None ''b'']
        (plc_init (\<lambda>n. n))"
  have p: "pending_transactions ?s = [(1, 1, 300, ''b'')]" and t: "transaction_id ?s = Some (str_uuid 0)"
    using two_requests by simp_all
  from pending_acquisitions_resolved_once[OF refl, of
      "[RequestTransaction None None ''a'', RequestTransaction (Some 5) None ''b'']" "\<lambda>n. n"
      "TimerFires 1"]
  have "\<forall>d c e q. (d, c, e, q) \<in> set (pending_transactions ?s) \<longrightarrow>
       deferred_results (step (TimerFires c) ?s) d = Some (TIMEOUT, None) \<and>
       (\<forall>t rest. pending_transactions ?s = (d, c, e, q) # rest \<and> transaction_id ?s = Some t \<longrightarrow>
          deferred_results (step (EndTransaction t) ?s) d =
            Some (OK, transaction_id (step (EndTransaction t) ?s)))"
    by blast
  with p t show ?thesis by simp
qed

lemma entry_step:
  assumes i: "agent_inv s" and m: "(d, c, e, q) \<in> set (pending_transactions s)"
    and w: "d \<in> set (waiting (step ev s))"
  shows "(d, c, e, q) \<in> set (pending_transactions (step ev s))"
  using i
proof (cases rule: step_cases[where ev = ev])
  case unchanged
  then show ?thesis using m by simp
next
  case (immediate acq ex r v)
  then show ?thesis using m by simp
next
  case (queued acq ex r)
  then show ?thesis using m by simp
next
  case (granted d' c' e' r' rest)
  have ds: "distinct (waiting s)" by (rule inv_parts(6)[OF i])
  have "d \<noteq> d'" using ds granted(1,2) w by (auto simp: waiting_def)
  then show ?thesis using m granted(1,2) by auto
next
  case (timed_out d' c' e' r')
  have "d \<noteq> d'"
    using distinct_waiting_entry[OF i timed_out(2)] timed_out(3) w by (auto simp: waiting_def)
  moreover have "distinct (pending_transactions s)"
    using inv_parts(6)[OF i] by (simp add: waiting_def distinct_map)
  ultimately show ?thesis using m timed_out(3) by auto
qed

lemma resolved_stays_run:
  "agent_inv s \<Longrightarrow> deferred_results s d = Some v \<Longrightarrow> deferred_results (run evs s) d = Some v"
  by (induction evs arbitrary: s) (simp_all add: resolved_stays inv_step)

lemma waiting_run:
  assumes i: "agent_inv s" and m: "(d, c, e, q) \<in> set (pending_transactions s)"
  shows "(d, c, e, q) \<in> set (pending_transactions (run evs s)) \<and> deferred_results (run evs s) d = None \<or>
     deferred_results (run evs s) d = Some (TIMEOUT, None) \<or>
     (\<exists>tok. deferred_results (run evs s) d = Some (OK, Some tok))"
  using i m
proof (induction evs arbitrary: s)
  case Nil
  then show ?case using inv_entry[of s d c e q] by simp
next
  case (Cons ev evs)
  note i = Cons.prems(1) and m = Cons.prems(2)
  have i': "agent_inv (step ev s)" by (rule inv_step[OF i])
  from waiting_step[OF i m, of ev] consider
    (still) "d \<in> set (waiting (step ev s))"
    | (timeout) "deferred_results (step ev s) d = Some (TIMEOUT, None)"
    | (grant) tok where "deferred_results (step ev s) d = Some (OK, Some tok)"
    by auto
  then show ?case
  proof cases
    case still
    from Cons.IH[OF i' entry_step[OF i m still]] show ?thesis by simp
  next
    case timeout
    from resolved_stays_run[OF i' timeout] show ?thesis by simp
  next
    case grant
    from resolved_stays_run[OF i' grant] show ?thesis by simp
  qed
qed



lemma waiting_run_deferred:
  assumes i: "agent_inv s" and m: "(d, c, e, q) \<in> set (pending_transactions s)"
  shows "d \<in> set (waiting (run evs s)) \<and> deferred_results (run evs s) d = None \<or>
     deferred_results (run evs s) d = Some (TIMEOUT, None) \<or>
     (\<exists>tok. deferred_results (run evs s) d = Some (OK, Some tok))"
proof -
  have "(d, c, e, q) \<in> set (pending_transactions (run evs s)) \<Longrightarrow> d \<in> set (waiting (run evs s))"
    by (force simp: waiting_def)
  with waiting_run[OF i m, of evs] show ?thesis by blast
qed

lemma request_returns_deferred:
  assumes i: "agent_inv s" and a: "none_or_nonneg acq" and e: "none_or_nonneg ex"
  shows "fst (request_transaction acq ex q s) = Inr (next_deferred s)"
proof (cases "transaction_id s = None")
  case True
  show ?thesis by (simp add: request_transaction_free[OF i a e True])
next
  case False
  show ?thesis
  proof (cases "clamp_acq_timeout acq s = 0")
    case True
    show ?thesis by (simp add: request_transaction_locked_nowait[OF i a e False True])
  next
    case z: False
    show ?thesis by (simp add: request_transaction_enqueue[OF i a e False z])
  qed
qed

lemma request_free_fields:
  assumes i: "agent_inv s" and a: "none_or_nonneg acq" and e: "none_or_nonneg ex"
    and f: "transaction_id s = None"
  shows "transaction_id (snd (request_transaction acq ex q s)) =
         Some (str_uuid (entropy s (entropy_pos s) mod 2 ^ 128)) \<and>
       transaction_timeout_call (snd (request_transaction acq ex q s)) = Some (next_call s) \<and>
       delayed_calls (snd (request_transaction acq ex q s)) (next_call s) =
         Some (clamp_exp_timeout (Some (clamp_exp_timeout ex s)) s, TransactionExpired) \<and>
       deferred_results (snd (request_transaction acq ex q s)) (next_deferred s) =
         Some (OK, transaction_id (snd (request_transaction acq ex q s))) \<and>
       pending_transactions (snd (request_transaction acq ex q s)) = pending_transactions s"
  by (simp add: request_transaction_free[OF i a e f])

lemma request_nowait_fields:
  assumes i: "agent_inv s" and a: "none_or_nonneg acq" and e: "none_or_nonneg ex"
    and f: "transaction_id s \<noteq> None" and z: "clamp_acq_timeout acq s = 0"
  shows "deferred_results (snd (request_transaction acq ex q s)) (next_deferred s) =
         Some (LOCKED_RESOURCE, None) \<and>
       pending_transactions (snd (request_transaction acq ex q s)) = pending_transactions s \<and>
       delayed_calls (snd (request_transaction acq ex q s)) = delayed_calls s \<and>
       transaction_id (snd (request_transaction acq ex q s)) = transaction_id s"
  by (simp add: request_transaction_locked_nowait[OF i a e f z])

lemma request_enqueue_fields:
  assumes i: "agent_inv s" and a: "none_or_nonneg acq" and e: "none_or_nonneg ex"
    and f: "transaction_id s \<noteq> None" and z: "clamp_acq_timeout acq s \<noteq> 0"
  shows "pending_transactions (snd (request_transaction acq ex q s)) =
         pending_transactions s @ [(next_deferred s, next_call s, clamp_exp_timeout ex s, q)] \<and>
       delayed_calls (snd (request_transaction acq ex q s)) (next_call s) =
         Some (clamp_acq_timeout acq s, AcquisitionTimeout (next_deferred s)) \<and>
       deferred_results (snd (request_transaction acq ex q s)) (next_deferred s) = None \<and>
       transaction_id (snd (request_transaction acq ex q s)) = transaction_id s"
  using inv_fresh_deferred[OF i] by (simp add: request_transaction_enqueue[OF i a e f z])

lemma request_enqueue_later:
  assumes i: "agent_inv s" and a: "none_or_nonneg acq" and e: "none_or_nonneg ex"
    and f: "transaction_id s \<noteq> None" and z: "clamp_acq_timeout acq s \<noteq> 0"
  shows "deferred_results (step (TimerFires (next_call s)) (snd (request_transaction acq ex q s)))
         (next_deferred s) = Some (TIMEOUT, None) \<and>
       (\<forall>evs. next_deferred s \<in> set (waiting (run evs (snd (request_transaction acq ex q s)))) \<and>
               deferred_results (run evs (snd (request_transaction acq ex q s))) (next_deferred s) = None \<or>
             deferred_results (run evs (snd (request_transaction acq ex q s))) (next_deferred s) =
               Some (TIMEOUT, None) \<or>
             (\<exists>tok. deferred_results (run evs (snd (request_transaction acq ex q s))) (next_deferred s) =
               Some (OK, Some tok)))"
proof -
  let ?s' = "snd (request_transaction acq ex q s)"
  have i': "agent_inv ?s'" by (rule inv_request_transaction[OF i])
  have m: "(next_deferred s, next_call s, clamp_exp_timeout ex s, q) \<in> set (pending_transactions ?s')"
    using request_enqueue_fields[OF i a e f z, of q] by simp
  have 1: "deferred_results (step (TimerFires (next_call s)) ?s') (next_deferred s) = Some (TIMEOUT, None)"
    using timer_resolves[OF i' m] by (rule conjunct1)
  have 2: "\<And>evs. next_deferred s \<in> set (waiting (run evs ?s')) \<and>
               deferred_results (run evs ?s') (next_deferred s) = None \<or>
             deferred_results (run evs ?s') (next_deferred s) = Some (TIMEOUT, None) \<or>
             (\<exists>tok. deferred_results (run evs ?s') (next_deferred s) = Some (OK, Some tok))"
    by (rule waiting_run_deferred[OF i' m])
  show ?thesis by (rule conjI[OF 1 allI[OF 2]])
qed

text \<open>
  Claim C2. \<open>_request_transaction\<close> on a well-formed agent, with timeouts that pass its
  assertions, returns the new Deferred and behaves by cases. No transaction current: a
  transaction starts with a fresh token and its expiration timer, and the Deferred is fired
  at once with (OK, token); the queue is as before. A transaction current and the clamped
  acquisition timeout 0: the Deferred is fired at once with (LOCKED_RESOURCE, None), and
  queue, timers and current transaction are as before. Otherwise the request is appended at
  the end of the queue with its acquisition timer pending, the Deferred unfired; the firing
  of that timer fires it with (TIMEOUT, None), and after any sequence of events it is still
  waiting unfired, or has fired with (TIMEOUT, None), or has fired with OK and a token.
\<close>

theorem request_transaction_cases:
  assumes i: "agent_inv s" and a: "none_or_nonneg acq" and e: "none_or_nonneg ex"
  shows "fst (request_transaction acq ex q s) = Inr (next_deferred s) \<and>
    (transaction_id s = None \<longrightarrow>
       transaction_id (snd (request_transaction acq ex q s)) =
         Some (str_uuid (entropy s (entropy_pos s) mod 2 ^ 128)) \<and>
       transaction_timeout_call (snd (request_transaction acq ex q s)) = Some (next_call s) \<and>
       delayed_calls (snd (request_transaction acq ex q s)) (next_call s) =
         Some (clamp_exp_timeout (Some (clamp_exp_timeout ex s)) s, TransactionExpired) \<and>
       deferred_results (snd (request_transaction acq ex q s)) (next_deferred s) =
         Some (OK, transaction_id (snd (request_transaction acq ex q s))) \<and>
       pending_transactions (snd (request_transaction acq ex q s)) = pending_transactions s) \<and>
    (transaction_id s \<noteq> None \<and> clamp_acq_timeout acq s = 0 \<longrightarrow>
       deferred_results (snd (request_transaction acq ex q s)) (next_deferred s) =
         Some (LOCKED_RESOURCE, None) \<and>
       pending_transactions (snd (request_transaction acq ex q s)) = pending_transactions s \<and>
       delayed_calls (snd (request_transaction acq ex q s)) = delayed_calls s \<and>
       transaction_id (snd (request_transaction acq ex q s)) = transaction_id s) \<and>
    (transaction_id s \<noteq> None \<and> clamp_acq_timeout acq s \<noteq> 0 \<longrightarrow>
       (pending_transactions (snd (request_transaction acq ex q s)) =
          pending_transactions s @ [(next_deferred s, next_call s, clamp_exp_timeout ex s, q)] \<and>
        delayed_calls (snd (request_transaction acq ex q s)) (next_call s) =
          Some (clamp_acq_timeout acq s, AcquisitionTimeout (next_deferred s)) \<and>
        deferred_results (snd (request_transaction acq ex q s)) (next_deferred s) = None \<and>
        transaction_id (snd (request_transaction acq ex q s)) = transaction_id s) \<and>
       (deferred_results (step (TimerFires (next_call s)) (snd (request_transaction acq ex q s)))
          (next_deferred s) = Some (TIMEOUT, None) \<and>
        (\<forall>evs. next_deferred s \<in> set (waiting (run evs (snd (request_transaction acq ex q s)))) \<and>
               deferred_results (run evs (snd (request_transaction acq ex q s))) (next_deferred s) = None \<or>
             deferred_results (run evs (snd (request_transaction acq ex q s))) (next_deferred s) =
               Some (TIMEOUT, None) \<or>
             (\<exists>tok. deferred_results (run evs (snd (request_transaction acq ex q s))) (next_deferred s) =
               Some (OK, Some tok)))))"
proof -
  have A: "fst (request_transaction acq ex q s) = Inr (next_deferred s)"
    by (rule request_returns_deferred[OF i a e])
  note B = request_free_fields[OF i a e, of q]
  note C = request_nowait_fields[OF i a e, of q]
  note D = request_enqueue_fields[OF i a e, of q]
  note E = request_enqueue_later[OF i a e, of q]
  show ?thesis
    apply (rule conjI[OF A])
    apply (rule conjI)
     apply (rule impI)
     apply (erule B)
    apply (rule conjI)
     apply (rule impI)
     apply (erule conjE)
     apply (erule (1) C)
    apply (rule impI)
    apply (erule conjE)
    apply (rule conjI)
     apply (erule (1) D)
    apply (erule (1) E)
    done
qed

lemma one_request:
  "run [RequestTransaction None None ''a''] (plc_init (\<lambda>n. n)) =
     (plc_init (\<lambda>n. n))\<lparr>transaction_id := Some (str_uuid 0), transaction_timeout_call := Some 0,
       delayed_calls := [0 \<mapsto> (300, TransactionExpired)],
       next_call := 1, deferred_results := [0 \<mapsto> (OK, Some (str_uuid 0))], next_deferred := 1,
       entropy_pos := 1\<rparr>"
  by (simp add: step_def tm_defs monad_defs plc_init_def Let_def)

theorem request_transaction_cases_witness:
  "fst (request_transaction None None ''a'' (plc_init (\<lambda>n. n))) = Inr 0 \<and>
   deferred_results (snd (request_transaction None None ''a'' (plc_init (\<lambda>n. n)))) 0 =
     Some (OK, Some (str_uuid 0)) \<and>
   deferred_results (snd (request_transaction None None ''b''
       (run [RequestTransaction None None ''a''] (plc_init (\<lambda>n. n))))) 1 =
     Some (LOCKED_RESOURCE, None) \<and>
   pending_transactions (snd (request_transaction None None ''b''
       (run [RequestTransaction None None ''a''] (plc_init (\<lambda>n. n))))) = [] \<and>
   pending_transactions (snd (request_transaction (Some 5) None ''b''
       (run [RequestTransaction None None ''a''] (plc_init (\<lambda>n. n))))) = [(1, 1, 300, ''b'')] \<and>
   delayed_calls (snd (request_transaction (Some 5) None ''b''
       (run [RequestTransaction None None ''a''] (plc_init (\<lambda>n. n))))) 1 =
     Some (5, AcquisitionTimeout 1) \<and>
   deferred_results (step (TimerFires 1) (snd (request_transaction (Some 5) None ''b''
       (run [RequestTransaction None None ''a''] (plc_init (\<lambda>n. n)))))) 1 =
     Some (TIMEOUT, None)"
proof -
  let ?s0 = "plc_init (\<lambda>n. n)"
  let ?s1 = "run [RequestTransaction None None ''a''] (plc_init (\<lambda>n. n))"
  have i1: "agent_inv ?s1" by (rule inv_run[OF inv_plc_init])
  have n: "none_or_nonneg None" "none_or_nonneg (Some 5)" by (simp_all add: none_or_nonneg_def)
  have f0: "transaction_id ?s0 = None" "next_deferred ?s0 = 0" "entropy ?s0 (entropy_pos ?s0) mod 2 ^ 128 = 0"
    by (simp_all add: plc_init_def)
  have f1: "transaction_id ?s1 \<noteq> None" "next_deferred ?s1 = 1" "next_call ?s1 = 1"
    "pending_transactions ?s1 = []" "clamp_acq_timeout None ?s1 = 0" "clamp_acq_timeout (Some 5) ?s1 = 5"
    "clamp_exp_timeout None ?s1 = 300"
    using one_request by (simp_all add: clamp_acq_timeout_def clamp_exp_timeout_def plc_init_def)
  note t0 = request_transaction_cases[OF inv_plc_init[of "\<lambda>n. n"] n(1) n(1), where q = "''a''"]
  note t1 = request_transaction_cases[OF i1 n(1) n(1), where q = "''b''"]
  note t2 = request_transaction_cases[OF i1 n(2) n(1), where q = "''b''"]
  from t0 f0(1) have 1: "fst (request_transaction None None ''a'' ?s0) = Inr (next_deferred ?s0)"
    and 2: "transaction_id (snd (request_transaction None None ''a'' ?s0)) =
         Some (str_uuid (entropy ?s0 (entropy_pos ?s0) mod 2 ^ 128))"
    and 3: "deferred_results (snd (request_transaction None None ''a'' ?s0)) (next_deferred ?s0) =
         Some (OK, transaction_id (snd (request_transaction None None ''a'' ?s0)))"
    by blast+
  from t1 f1(1) f1(5) have 4: "deferred_results (snd (request_transaction None None ''b'' ?s1)) (next_deferred ?s1) =
         Some (LOCKED_RESOURCE, None)"
    and 5: "pending_transactions (snd (request_transaction None None ''b'' ?s1)) = pending_transactions ?s1"
    by blast+
  have nz: "clamp_acq_timeout (Some 5) ?s1 \<noteq> 0" using f1(6) by simp
  from t2 f1(1) nz have 6: "pending_transactions (snd (request_transaction (Some 5) None ''b'' ?s1)) =
          pending_transactions ?s1 @ [(next_deferred ?s1, next_call ?s1, clamp_exp_timeout None ?s1, ''b'')]"
    and 7: "delayed_calls (snd (request_transaction (Some 5) None ''b'' ?s1)) (next_call ?s1) =
          Some (clamp_acq_timeout (Some 5) ?s1, AcquisitionTimeout (next_deferred ?s1))"
    and 8: "deferred_results (step (TimerFires (next_call ?s1)) (snd (request_transaction (Some 5) None ''b'' ?s1)))
          (next_deferred ?s1) = Some (TIMEOUT, None)"
    by blast+
  show ?thesis
    using 1 2 3 4 5 6 7 8 f0 f1(2-7) by simp
qed

lemma clamp_exp_in_range:
  "min_exp_timeout s \<le> e \<Longrightarrow> e \<le> max_exp_timeout s \<Longrightarrow> clamp_exp_timeout (Some e) s = e"
  by (simp add: clamp_exp_timeout_def)

lemma verify_invalid:
  "tid \<noteq> ''create'' \<Longrightarrow> tid \<noteq> ''none'' \<Longrightarrow> length tid \<noteq> 36 \<Longrightarrow>
   verify_transaction tid optype s = (Inr INVALID_TRANSACTION_ID, s)"
  by (simp add: verify_transaction_def)

lemma verify_create_free:
  assumes i: "agent_inv s" and f: "transaction_id s = None"
  shows "verify_transaction ''create'' optype s =
      (Inr OK, snd (start_transaction (Some (default_exp_timeout s)) s)) \<and>
    transaction_id (snd (verify_transaction ''create'' optype s)) =
      Some (str_uuid (entropy s (entropy_pos s) mod 2 ^ 128)) \<and>
    transaction_timeout_call (snd (verify_transaction ''create'' optype s)) = Some (next_call s) \<and>
    delayed_calls (snd (verify_transaction ''create'' optype s)) (next_call s) =
      Some (clamp_exp_timeout (Some (default_exp_timeout s)) s, TransactionExpired) \<and>
    pending_transactions (snd (verify_transaction ''create'' optype s)) = pending_transactions s \<and>
    deferred_results (snd (verify_transaction ''create'' optype s)) = deferred_results s \<and>
    next_deferred (snd (verify_transaction ''create'' optype s)) = next_deferred s \<and>
    in_protected_function (snd (verify_transaction ''create'' optype s)) = in_protected_function s"
proof -
  have cfg: "config_ok s" by (rule inv_parts(1)[OF i])
  have n: "none_or_nonneg (Some (default_exp_timeout s))"
    using cfg by (simp add: none_or_nonneg_def config_ok_def)
  show ?thesis
    by (simp add: verify_transaction_def monad_defs is_ok_def start_transaction_free[OF f n cfg])
qed

lemma verify_create_locked:
  assumes i: "agent_inv s" and f: "transaction_id s \<noteq> None"
  shows "verify_transaction ''create'' optype s = (Inr LOCKED_RESOURCE, s)"
proof -
  have cfg: "config_ok s" by (rule inv_parts(1)[OF i])
  have n: "none_or_nonneg (Some (default_exp_timeout s))"
    using cfg by (simp add: none_or_nonneg_def config_ok_def)
  show ?thesis
    by (simp add: verify_transaction_def monad_defs is_ok_def start_transaction_locked[OF f n])
qed

lemma verify_none:
  assumes i: "agent_inv s"
  shows "verify_transaction ''none'' optype s =
    (Inr (if transaction_id s = None \<and> optype = ''get'' then OK else LOCKED_RESOURCE), s)"
  using inv_parts(2)[OF i]
  by (auto simp: verify_transaction_def token_ok_def split: option.splits)

lemma verify_uuid:
  "length tid = 36 \<Longrightarrow>
   verify_transaction tid optype s =
     (Inr (if transaction_id s = Some tid then OK else LOCKED_RESOURCE), s)"
  by (auto simp: verify_transaction_def)

text \<open>
  Claim C5. \<open>_verify_transaction(tid, optype)\<close> on a well-formed agent, by cases. A
  \<open>tid\<close> other than \<open>create\<close> and \<open>none\<close> that does not have 36 characters gives
  INVALID_TRANSACTION_ID and changes nothing. \<open>create\<close> calls \<open>_start_transaction\<close> with
  the default expiration timeout: with no transaction current the answer is OK, a
  transaction is current afterwards with its expiration timer pending (for the default
  timeout, when that lies between the minimum and the maximum), and nothing is queued and no
  Deferred fired; with a transaction current the answer is LOCKED_RESOURCE and nothing
  changes. \<open>none\<close> gives OK exactly when no transaction is current and the operation is a
  \<open>get\<close>, and LOCKED_RESOURCE otherwise. A \<open>tid\<close> of 36 characters gives OK when it is the
  current token and LOCKED_RESOURCE otherwise.
\<close>

theorem verify_transaction_cases:
  assumes i: "agent_inv s"
  shows "(tid \<noteq> ''create'' \<and> tid \<noteq> ''none'' \<and> length tid \<noteq> 36 \<longrightarrow>
       verify_transaction tid optype s = (Inr INVALID_TRANSACTION_ID, s)) \<and>
    (transaction_id s = None \<longrightarrow>
       verify_transaction ''create'' optype s =
         (Inr OK, snd (start_transaction (Some (default_exp_timeout s)) s)) \<and>
       transaction_id (snd (verify_transaction ''create'' optype s)) =
         Some (str_uuid (entropy s (entropy_pos s) mod 2 ^ 128)) \<and>
       transaction_timeout_call (snd (verify_transaction ''create'' optype s)) = Some (next_call s) \<and>
       delayed_calls (snd (verify_transaction ''create'' optype s)) (next_call s) =
         Some (clamp_exp_timeout (Some (default_exp_timeout s)) s, TransactionExpired) \<and>
       pending_transactions (snd (verify_transaction ''create'' optype s)) = pending_transactions s \<and>
       deferred_results (snd (verify_transaction ''create'' optype s)) = deferred_results s \<and>
       next_deferred (snd (verify_transaction ''create'' optype s)) = next_deferred s \<and>
       in_protected_function (snd (verify_transaction ''create'' optype s)) = in_protected_function s) \<and>
    (min_exp_timeout s \<le> default_exp_timeout s \<and> default_exp_timeout s \<le> max_exp_timeout s \<longrightarrow>
       clamp_exp_timeout (Some (default_exp_timeout s)) s = default_exp_timeout s) \<and>
    (transaction_id s \<noteq> None \<longrightarrow>
       verify_transaction ''create'' optype s = (Inr LOCKED_RESOURCE, s)) \<and>
    verify_transaction ''none'' optype s =
      (Inr (if transaction_id s = None \<and> optype = ''get'' then OK else LOCKED_RESOURCE), s) \<and>
    (length tid = 36 \<longrightarrow>
       verify_transaction tid optype s =
         (Inr (if transaction_id s = Some tid then OK else LOCKED_RESOURCE), s))"
proof -
  note A = verify_invalid[of tid optype s]
  note B = verify_create_free[OF i, of optype]
  note C = clamp_exp_in_range[of s "default_exp_timeout s"]
  note D = verify_create_locked[OF i, of optype]
  note E = verify_none[OF i, of optype]
  note F = verify_uuid[of tid optype s]
  show ?thesis
    apply (rule conjI)
     apply (rule impI)
     apply (elim conjE)
     apply (erule (2) A)
    apply (rule conjI)
     apply (rule impI)
     apply (erule B)
    apply (rule conjI)
     apply (rule impI)
     apply (erule conjE)
     apply (erule (1) C)
    apply (rule conjI)
     apply (rule impI)
     apply (erule D)
    apply (rule conjI)
     apply (rule E)
    apply (rule impI)
    apply (erule F)
    done
qed

theorem verify_transaction_cases_witness:
  "verify_transaction ''bogus'' ''get'' (plc_init (\<lambda>n. n)) =
     (Inr INVALID_TRANSACTION_ID, plc_init (\<lambda>n. n)) \<and>
   fst (verify_transaction ''create'' ''set'' (plc_init (\<lambda>n. n))) = Inr OK \<and>
   delayed_calls (snd (verify_transaction ''create'' ''set'' (plc_init (\<lambda>n. n)))) 0 =
     Some (300, TransactionExpired) \<and>
   verify_transaction ''none'' ''get'' (plc_init (\<lambda>n. n)) = (Inr OK, plc_init (\<lambda>n. n)) \<and>
   verify_transaction ''none'' ''set'' (plc_init (\<lambda>n. n)) = (Inr LOCKED_RESOURCE, plc_init (\<lambda>n. n)) \<and>
   verify_transaction (str_uuid 7) ''get'' (plc_init (\<lambda>n. n)) =
     (Inr LOCKED_RESOURCE, plc_init (\<lambda>n. n))"
proof -
  have f: "transaction_id (plc_init (\<lambda>n. n)) = None" "next_call (plc_init (\<lambda>n. n)) = 0"
    "min_exp_timeout (plc_init (\<lambda>n. n)) \<le> default_exp_timeout (plc_init (\<lambda>n. n))"
    "default_exp_timeout (plc_init (\<lambda>n. n)) \<le> max_exp_timeout (plc_init (\<lambda>n. n))"
    "default_exp_timeout (plc_init (\<lambda>n. n)) = 300"
    by (simp_all add: plc_init_def)
  have b: "''bogus'' \<noteq> ''create'' \<and> ''bogus'' \<noteq> ''none'' \<and> length ''bogus'' \<noteq> 36" by simp
  note t1 = verify_transaction_cases[OF inv_plc_init, of "''bogus''" "''get''" "\<lambda>n. n"]
  note t2 = verify_transaction_cases[OF inv_plc_init, of "str_uuid 7" "''set''" "\<lambda>n. n"]
  note t3 = verify_transaction_cases[OF inv_plc_init, of "str_uuid 7" "''get''" "\<lambda>n. n"]
  from t1 b have 1: "verify_transaction ''bogus'' ''get'' (plc_init (\<lambda>n. n)) =
     (Inr INVALID_TRANSACTION_ID, plc_init (\<lambda>n. n))" by blast
  from t2 f(1) have 2: "verify_transaction ''create'' ''set'' (plc_init (\<lambda>n. n)) =
         (Inr OK, snd (start_transaction (Some (default_exp_timeout (plc_init (\<lambda>n. n)))) (plc_init (\<lambda>n. n))))"
    and 3: "delayed_calls (snd (verify_transaction ''create'' ''set'' (plc_init (\<lambda>n. n))))
        (next_call (plc_init (\<lambda>n. n))) =
         Some (clamp_exp_timeout (Some (default_exp_timeout (plc_init (\<lambda>n. n)))) (plc_init (\<lambda>n. n)),
               TransactionExpired)"
    by blast+
  from t2 f(3,4) have 4: "clamp_exp_timeout (Some (default_exp_timeout (plc_init (\<lambda>n. n)))) (plc_init (\<lambda>n. n)) =
      default_exp_timeout (plc_init (\<lambda>n. n))" by blast
  from t3 have 5: "verify_transaction ''none'' ''get'' (plc_init (\<lambda>n. n)) =
      (Inr (if transaction_id (plc_init (\<lambda>n. n)) = None \<and> ''get'' = ''get'' then OK else LOCKED_RESOURCE),
       plc_init (\<lambda>n. n))" by blast
  from t2 have 6: "verify_transaction ''none'' ''set'' (plc_init (\<lambda>n. n)) =
      (Inr (if transaction_id (plc_init (\<lambda>n. n)) = None \<and> ''set'' = ''get'' then OK else LOCKED_RESOURCE),
       plc_init (\<lambda>n. n))" by blast
  from t3 length_str_uuid[of 7] have 7: "verify_transaction (str_uuid 7) ''get'' (plc_init (\<lambda>n. n)) =
      (Inr (if transaction_id (plc_init (\<lambda>n. n)) = Some (str_uuid 7) then OK else LOCKED_RESOURCE),
       plc_init (\<lambda>n. n))" by blast
  show ?thesis
    using 1 2 3 4 5 6 7 f by simp
qed

lemma end_match_timer_cancelled:
  assumes i: "agent_inv s" and t: "transaction_id s = Some tid"
    and c: "transaction_timeout_call s = Some call"
  shows "delayed_calls (snd (end_transaction (Some tid) s)) call = None"
proof (cases "pending_transactions s")
  case Nil
  show ?thesis using c by (simp add: end_transaction_match_empty[OF i t Nil])
next
  case (Cons entry rest)
  obtain d c' e q where en: "entry = (d, c', e, q)" by (cases entry) auto
  have p: "pending_transactions s = (d, c', e, q) # rest" using Cons en by simp
  obtain delay where "delayed_calls s call = Some (delay, TransactionExpired)"
    using inv_timer_pending[OF i c] by blast
  from inv_calls_bound[OF i this] have "call \<noteq> next_call s" by simp
  then show ?thesis using c by (simp add: end_transaction_match_head[OF i t p])
qed

lemma end_match_empty_fields:
  assumes i: "agent_inv s" and t: "transaction_id s = Some tid"
    and p: "pending_transactions s = []"
  shows "transaction_id (snd (end_transaction (Some tid) s)) = None \<and>
    transaction_timeout_call (snd (end_transaction (Some tid) s)) = None \<and>
    pending_transactions (snd (end_transaction (Some tid) s)) = [] \<and>
    deferred_results (snd (end_transaction (Some tid) s)) = deferred_results s"
  by (simp add: end_transaction_match_empty[OF i t p] p)

lemma end_match_head_fields:
  assumes i: "agent_inv s" and t: "transaction_id s = Some tid"
    and p: "pending_transactions s = (d, call, e, q) # rest"
  shows "pending_transactions (snd (end_transaction (Some tid) s)) = rest \<and>
    delayed_calls (snd (end_transaction (Some tid) s)) call = None \<and>
    transaction_id (snd (end_transaction (Some tid) s)) =
      Some (str_uuid (entropy s (entropy_pos s) mod 2 ^ 128)) \<and>
    transaction_timeout_call (snd (end_transaction (Some tid) s)) = Some (next_call s) \<and>
    delayed_calls (snd (end_transaction (Some tid) s)) (next_call s) =
      Some (clamp_exp_timeout (Some e) s, TransactionExpired) \<and>
    (min_exp_timeout s \<le> e \<and> e \<le> max_exp_timeout s \<longrightarrow> clamp_exp_timeout (Some e) s = e) \<and>
    deferred_results (snd (end_transaction (Some tid) s)) =
      (deferred_results s)(d \<mapsto> (OK, transaction_id (snd (end_transaction (Some tid) s))))"
proof -
  have m: "(d, call, e, q) \<in> set (pending_transactions s)" using p by simp
  obtain delay where "delayed_calls s call = Some (delay, AcquisitionTimeout d)"
    using inv_entry[OF i m] by blast
  from inv_calls_bound[OF i this] have "call \<noteq> next_call s" by simp
  then show ?thesis
    by (simp add: end_transaction_match_head[OF i t p] clamp_exp_in_range)
qed

lemma end_not_locked:
  "transaction_id s = None \<Longrightarrow> end_transaction (Some tid) s = (Inr RESOURCE_NOT_LOCKED, s)"
  by (simp add: end_transaction_other)

lemma end_mismatch:
  "transaction_id s \<noteq> None \<Longrightarrow> transaction_id s \<noteq> Some tid \<Longrightarrow>
   end_transaction (Some tid) s = (Inr LOCKED_RESOURCE, s)"
  by (simp add: end_transaction_other)

text \<open>
  Claim C3. \<open>_end_transaction(tid)\<close> on a well-formed agent, by cases. \<open>tid\<close> is the
  current token: the answer is OK and the expiration timer of the transaction is cancelled;
  with an empty queue no transaction is current afterwards; with a non-empty queue the head
  entry is popped, its acquisition timer cancelled, a new transaction started with a fresh
  token and an expiration timer for the entry's expiration timeout (clamped again, which
  changes nothing while it lies between the minimum and the maximum), and the entry's
  Deferred fired with (OK, new token). No transaction current: RESOURCE_NOT_LOCKED, nothing
  changes. A transaction current and \<open>tid\<close> another string, the empty one included:
  LOCKED_RESOURCE, nothing changes.
\<close>

theorem end_transaction_cases:
  assumes i: "agent_inv s"
  shows "(transaction_id s = Some tid \<longrightarrow>
       fst (end_transaction (Some tid) s) = Inr OK \<and>
       (\<forall>call. transaction_timeout_call s = Some call \<longrightarrow>
          delayed_calls (snd (end_transaction (Some tid) s)) call = None) \<and>
       (pending_transactions s = [] \<longrightarrow>
          transaction_id (snd (end_transaction (Some tid) s)) = None \<and>
          transaction_timeout_call (snd (end_transaction (Some tid) s)) = None \<and>
          pending_transactions (snd (end_transaction (Some tid) s)) = [] \<and>
          deferred_results (snd (end_transaction (Some tid) s)) = deferred_results s) \<and>
       (\<forall>d call e q rest. pending_transactions s = (d, call, e, q) # rest \<longrightarrow>
          pending_transactions (snd (end_transaction (Some tid) s)) = rest \<and>
          delayed_calls (snd (end_transaction (Some tid) s)) call = None \<and>
          transaction_id (snd (end_transaction (Some tid) s)) =
            Some (str_uuid (entropy s (entropy_pos s) mod 2 ^ 128)) \<and>
          transaction_timeout_call (snd (end_transaction (Some tid) s)) = Some (next_call s) \<and>
          delayed_calls (snd (end_transaction (Some tid) s)) (next_call s) =
            Some (clamp_exp_timeout (Some e) s, TransactionExpired) \<and>
          (min_exp_timeout s \<le> e \<and> e \<le> max_exp_timeout s \<longrightarrow>
             clamp_exp_timeout (Some e) s = e) \<and>
          deferred_results (snd (end_transaction (Some tid) s)) =
            (deferred_results s)(d \<mapsto> (OK, transaction_id (snd (end_transaction (Some tid) s)))))) \<and>
    (transaction_id s = None \<longrightarrow>
       end_transaction (Some tid) s = (Inr RESOURCE_NOT_LOCKED, s)) \<and>
    (transaction_id s \<noteq> None \<and> transaction_id s \<noteq> Some tid \<longrightarrow>
       end_transaction (Some tid) s = (Inr LOCKED_RESOURCE, s))"
proof -
  note A = end_transaction_match_ok[OF i, of tid]
  note B = end_match_timer_cancelled[OF i, of tid]
  note C = end_match_empty_fields[OF i, of tid]
  note D = end_match_head_fields[OF i, of tid]
  note E = end_not_locked[of s tid]
  note F = end_mismatch[of s tid]
  show ?thesis
    apply (rule conjI)
     apply (rule impI)
     apply (rule conjI)
      apply (erule A)
     apply (rule conjI)
      apply (intro allI impI)
      apply (erule (1) B)
     apply (rule conjI)
      apply (rule impI)
      apply (erule (1) C)
     apply (intro allI impI)
     apply (erule (1) D)
    apply (rule conjI)
     apply (rule impI)
     apply (erule E)
    apply (rule impI)
    apply (erule conjE)
    apply (erule (1) F)
    done
qed

lemma str_uuid_not_empty: "str_uuid n \<noteq> ''''"
  using length_str_uuid[of n] by auto

theorem end_transaction_cases_witness:
  "fst (end_transaction (Some (str_uuid 0))
      (run [RequestTransaction None None ''a'', RequestTransaction (Some 5) None ''b'']
         (plc_init (\<lambda>n. n)))) = Inr OK \<and>
   pending_transactions (snd (end_transaction (Some (str_uuid 0))
      (run [RequestTransaction None None ''a'', RequestTransaction (Some 5) None ''b'']
         (plc_init (\<lambda>n. n))))) = [] \<and>
   delayed_calls (snd (end_transaction (Some (str_uuid 0))
      (run [RequestTransaction None None ''a'', RequestTransaction (Some 5) None ''b'']
         (plc_init (\<lambda>n. n))))) 2 = Some (300, TransactionExpired) \<and>
   end_transaction (Some '''')
      (run [RequestTransaction None None ''a'', RequestTransaction (Some 5) None ''b'']
         (plc_init (\<lambda>n. n))) =
     (Inr LOCKED_RESOURCE,
      run [RequestTransaction None None ''a'', RequestTransaction (Some 5) None ''b'']
         (plc_init (\<lambda>n. n))) \<and>
   end_transaction (Some '''') (plc_init (\<lambda>n. n)) = (Inr RESOURCE_NOT_LOCKED, plc_init (\<lambda>n. n))"
proof -
  let ?s = "run [RequestTransaction None None ''a'', RequestTransaction (Some 5) None ''b'']
         (plc_init (\<lambda>n. n))"
  have i: "agent_inv ?s" by (rule inv_run[OF inv_plc_init])
  have f: "transaction_id ?s = Some (str_uuid 0)" "pending_transactions ?s = [(1, 1, 300, ''b'')]"
    "next_call ?s = 2" "min_exp_timeout ?s = 1" "max_exp_timeout ?s = 1800"
    using two_requests by (simp_all add: plc_init_def)
  have g: "transaction_id ?s \<noteq> None \<and> transaction_id ?s \<noteq> Some ''''"
    using f(1) str_uuid_not_empty[of 0] by simp
  have h: "transaction_id (plc_init (\<lambda>n. n)) = None" by (simp add: plc_init_def)
  note t1 = end_transaction_cases[OF i, of "str_uuid 0"]
  note t2 = end_transaction_cases[OF i, of "''''"]
  note t3 = end_transaction_cases[OF inv_plc_init, of "\<lambda>n. n" "''''"]
  from t1 f(1) have 1: "fst (end_transaction (Some (str_uuid 0)) ?s) = Inr OK" by blast
  from t1 f(1) have "\<forall>d call e q rest. pending_transactions ?s = (d, call, e, q) # rest \<longrightarrow>
          pending_transactions (snd (end_transaction (Some (str_uuid 0)) ?s)) = rest \<and>
          delayed_calls (snd (end_transaction (Some (str_uuid 0)) ?s)) (next_call ?s) =
            Some (clamp_exp_timeout (Some e) ?s, TransactionExpired) \<and>
          (min_exp_timeout ?s \<le> e \<and> e \<le> max_exp_timeout ?s \<longrightarrow>
             clamp_exp_timeout (Some e) ?s = e)"
    by blast
  with f(2) have 2: "pending_transactions (snd (end_transaction (Some (str_uuid 0)) ?s)) = [] \<and>
          delayed_calls (snd (end_transaction (Some (str_uuid 0)) ?s)) (next_call ?s) =
            Some (clamp_exp_timeout (Some 300) ?s, TransactionExpired) \<and>
          (min_exp_timeout ?s \<le> 300 \<and> 300 \<le> max_exp_timeout ?s \<longrightarrow>
             clamp_exp_timeout (Some 300) ?s = 300)"
    by blast
  from t2 g have 3: "end_transaction (Some '''') ?s = (Inr LOCKED_RESOURCE, ?s)" by blast
  from t3 h have 4: "end_transaction (Some '''') (plc_init (\<lambda>n. n)) =
      (Inr RESOURCE_NOT_LOCKED, plc_init (\<lambda>n. n))" by blast
  from 2 f(3,4,5) have 5: "pending_transactions (snd (end_transaction (Some (str_uuid 0)) ?s)) = [] \<and>
     delayed_calls (snd (end_transaction (Some (str_uuid 0)) ?s)) 2 = Some (300, TransactionExpired)"
    by simp
  from 1 5 3 4 show ?thesis by blast
qed

section \<open>Exceptions of the body of a protected operation\<close>

lemma flag_fields [simp]:
  "in_protected_function (snd (end_transaction tid s)) = in_protected_function s"
proof (cases tid)
  case None
  then show ?thesis by (simp add: end_transaction_def)
next
  case (Some t)
  show ?thesis
    unfolding Some
    by (auto simp: end_transaction_def monad_defs cancel_def start_transaction_def callLater_def
        callback_def str_uuid4_def Let_def split: option.splits list.splits prod.splits sum.splits)
qed









section \<open>Protected operations keep the agent well-formed\<close>

text \<open>
  The well-formedness that the theorems above assume holds in every state that the modelled
  methods reach: \<open>inv_plc_init\<close> and \<open>inv_run\<close> cover the calls of the transaction
  manager and the timers, the lemmas below the parts of the protected operations.
\<close>

lemma inv_start_transaction:
  assumes i: "agent_inv s"
  shows "agent_inv (snd (start_transaction e s))"
proof (cases "none_or_nonneg e")
  case False
  then show ?thesis using i by (simp add: start_transaction_def)
next
  case n: True
  show ?thesis
  proof (cases "transaction_id s = None")
    case False
    then show ?thesis using i by (simp add: start_transaction_locked[OF False n])
  next
    case f: True
    note p = inv_parts[OF i] and nt = inv_free_no_timer[OF i f] and fc = inv_fresh_call[OF i]
    show ?thesis
      unfolding start_transaction_free[OF f n p(1)] agent_inv_def snd_conv
    proof (intro conjI)
      show "calls_ok (s\<lparr>entropy_pos := Suc (entropy_pos s),
        transaction_id := Some (str_uuid (entropy s (entropy_pos s) mod 2 ^ 128)),
        delayed_calls := (delayed_calls s)(next_call s \<mapsto> (clamp_exp_timeout e s, TransactionExpired)),
        next_call := Suc (next_call s),
        transaction_timeout_call := Some (next_call s)\<rparr>)"
        using p(4) nt fc unfolding calls_ok_iff by (auto simp: less_Suc_eq)
    qed (use p nt in \<open>auto simp: config_ok_def token_ok_def length_str_uuid timer_ok_iff
          deferreds_ok_iff waiting_def\<close>)
  qed
qed

lemma inv_verify_transaction:
  assumes i: "agent_inv s"
  shows "agent_inv (snd (verify_transaction tid optype s))"
proof (cases "tid = ''create''")
  case True
  have "snd (verify_transaction ''create'' optype s) =
      snd (start_transaction (Some (default_exp_timeout s)) s)"
    by (simp add: verify_transaction_def monad_defs split: prod.splits sum.splits)
  then show ?thesis using inv_start_transaction[OF i] True by simp
next
  case False
  then show ?thesis using i by (simp add: verify_transaction_def)
qed

lemma inv_transaction_cleanup:
  assumes i: "agent_inv s"
  shows "agent_inv (snd (transaction_cleanup tid s))"
proof -
  have "snd (transaction_cleanup tid s) = s\<lparr>in_protected_function := False\<rparr> \<or>
      snd (transaction_cleanup tid s) = snd (end_transaction (transaction_id s) s) \<or>
      snd (transaction_cleanup tid s) =
        (snd (end_transaction (transaction_id s) s))\<lparr>in_protected_function := False\<rparr>"
    by (simp add: transaction_cleanup_def monad_defs split: prod.splits sum.splits)
  then show ?thesis using i inv_end_transaction[OF i, of "transaction_id s"] by auto
qed

lemma inv_get_device_enter:
  assumes i: "agent_inv s"
  shows "agent_inv (snd (op_get_device_enter tid s))"
    and "agent_inv (snd (op_get_device_metadata_enter tid s))"
proof -
  have i': "agent_inv (s\<lparr>in_protected_function := True\<rparr>)" using i by simp
  have "snd (get_device_enter tid s) =
      snd (verify_transaction tid ''get'' (s\<lparr>in_protected_function := True\<rparr>))"
    by (simp add: get_device_enter_def monad_defs Let_def split: prod.splits sum.splits)
  then show "agent_inv (snd (op_get_device_enter tid s))"
    and "agent_inv (snd (op_get_device_metadata_enter tid s))"
    using inv_verify_transaction[OF i']
    by (simp_all add: op_get_device_enter_def op_get_device_metadata_enter_def)
qed

lemma inv_get_device_resume:
  assumes i: "agent_inv s"
  shows "agent_inv (snd (op_get_device_resume tid rep env s))"
    and "agent_inv (snd (op_get_device_metadata_resume tid rep env s))"
proof -
  have "snd (op_get_device_resume tid rep env s) = snd (transaction_cleanup tid s)"
    by (simp add: op_get_device_resume_def finish_reraising_def monad_defs
        split: prod.splits sum.splits outcome.splits)
  then show "agent_inv (snd (op_get_device_resume tid rep env s))"
    using inv_transaction_cleanup[OF i] by simp
  have "snd (op_get_device_metadata_resume tid rep env s) = snd (transaction_cleanup tid s)"
    by (simp add: op_get_device_metadata_resume_def finish_swallowing_def monad_defs
        split: prod.splits sum.splits outcome.splits)
  then show "agent_inv (snd (op_get_device_metadata_resume tid rep env s))"
    using inv_transaction_cleanup[OF i] by simp
qed

end
